theory Spec2Isabelle
  imports Main "HOL-Library.Sublist" "HOL-Library.AList" "HOL-Library.Monad_Syntax"
begin

section \<open>The log sink of Octant: \<open>internal/log/sink.go\<close>\<close>

text \<open>
  The sink receives one serialised log record per call of \<open>Write\<close>, converts it to a
  \<open>Message\<close> and sends the message to every listener's channel. A byte slice and a Go
  string are both a list of bytes here (\<open>string\<close>, that is \<open>char list\<close>, a \<open>char\<close>
  being one byte); the conversion \<open>string(b)\<close> of the source is the identity.
\<close>

subsection \<open>Messages and errors\<close>

record Message =
  Date :: int
  LogLevel :: string
  Location :: string
  Text :: string
  JSON :: string

text \<open>\<open>Message{}\<close>, the zero value of the struct.\<close>

definition Message_zero :: Message where
  "Message_zero = \<lparr>Date = 0, LogLevel = [], Location = [], Text = [], JSON = []\<rparr>"

text \<open>
  The errors of the package, named as the specification names them:
  \<^item> \<open>MalformedRecord\<close> is \<open>errors.New("unknown log message format")\<close>;
  \<^item> \<open>InvalidTimestamp\<close> is \<open>fmt.Errorf("invalid log timestamp: %w", err)\<close>, whatever
    the error of \<open>time.Parse\<close> was;
  \<^item> \<open>ConvertFailed e\<close> is \<open>fmt.Errorf("convert bytes to message: %w", e)\<close>, the error
    \<open>e\<close> of the converter as \<open>Write\<close> wraps it.
  A Go function returning \<open>(T, error)\<close> returns both values: the result type is a pair
  whose second component is \<open>None\<close> for \<open>nil\<close>.
\<close>

datatype error = MalformedRecord | InvalidTimestamp | ConvertFailed error

subsection \<open>The functions of Go's standard library that the converter calls\<close>

text \<open>
  \<open>strings.TrimSpace\<close> removes the leading and the trailing white space of a string, as
  Unicode defines it, on the UTF-8 encoding: the six ASCII characters tab, line feed,
  vertical tab, form feed, carriage return and space, and the encodings of U+0085,
  U+00A0, U+1680, U+2000 to U+200A, U+2028, U+2029, U+202F, U+205F and U+3000. A byte
  that starts no such encoding is not white space and ends the trimming.
\<close>

definition tab :: char where
  "tab = CHR 0x09"

definition asciiSpace :: "char list" where
  "asciiSpace = [CHR 0x09, CHR 0x0A, CHR 0x0B, CHR 0x0C, CHR 0x0D, CHR 0x20]"

fun leadingSpace :: "string \<Rightarrow> nat" where
  "leadingSpace [] = 0"
| "leadingSpace [a] = (if a \<in> set asciiSpace then 1 else 0)"
| "leadingSpace [a, b] =
     (if a \<in> set asciiSpace then 1
      else if a = CHR 0xC2 \<and> (b = CHR 0x85 \<or> b = CHR 0xA0) then 2 else 0)"
| "leadingSpace (a # b # c # s) =
     (if a \<in> set asciiSpace then 1
      else if a = CHR 0xC2 \<and> (b = CHR 0x85 \<or> b = CHR 0xA0) then 2
      else if a = CHR 0xE1 \<and> b = CHR 0x9A \<and> c = CHR 0x80 then 3
      else if a = CHR 0xE2 \<and> b = CHR 0x80 \<and>
              ((128::nat) \<le> of_char c \<and> (of_char c::nat) \<le> 138
               \<or> c = CHR 0xA8 \<or> c = CHR 0xA9 \<or> c = CHR 0xAF) then 3
      else if a = CHR 0xE2 \<and> b = CHR 0x81 \<and> c = CHR 0x9F then 3
      else if a = CHR 0xE3 \<and> b = CHR 0x80 \<and> c = CHR 0x80 then 3
      else 0)"

text \<open>
  \<open>trailingSpace\<close> takes the string reversed: the width of the white-space character
  that the string ends with, 0 when it ends with none.
\<close>

fun trailingSpace :: "string \<Rightarrow> nat" where
  "trailingSpace [] = 0"
| "trailingSpace [a] = leadingSpace [a]"
| "trailingSpace [b, a] =
     (if b \<in> set asciiSpace then 1 else if leadingSpace [a, b] = 2 then 2 else 0)"
| "trailingSpace (c # b # a # s) =
     (if c \<in> set asciiSpace then 1
      else if leadingSpace [b, c] = 2 then 2
      else if leadingSpace [a, b, c] = 3 then 3 else 0)"

lemma leadingSpace_le: "leadingSpace s \<le> length s"
  by (cases s rule: leadingSpace.cases) auto

lemma trailingSpace_le: "trailingSpace r \<le> length r"
  by (cases r rule: trailingSpace.cases) auto

function TrimLeft :: "string \<Rightarrow> string" where
  "TrimLeft s = (if leadingSpace s = 0 then s else TrimLeft (drop (leadingSpace s) s))"
  by pat_completeness auto
termination
proof (relation "measure length")
  show "wf (measure length)" by simp
next
  fix s :: string
  assume "leadingSpace s \<noteq> 0"
  with leadingSpace_le [of s] show "(drop (leadingSpace s) s, s) \<in> measure length"
    by simp
qed

function TrimRightRev :: "string \<Rightarrow> string" where
  "TrimRightRev r = (if trailingSpace r = 0 then r else TrimRightRev (drop (trailingSpace r) r))"
  by pat_completeness auto
termination
proof (relation "measure length")
  show "wf (measure length)" by simp
next
  fix r :: string
  assume "trailingSpace r \<noteq> 0"
  with trailingSpace_le [of r] show "(drop (trailingSpace r) r, r) \<in> measure length"
    by simp
qed

definition TrimSpace :: "string \<Rightarrow> string" where
  "TrimSpace s = rev (TrimRightRev (rev (TrimLeft s)))"

text \<open>
  \<open>strings.Split(s, "\t")\<close>: the substrings of \<open>s\<close> between the tabs, one more than there
  are tabs; the empty string gives one empty field.
\<close>

fun Split :: "string \<Rightarrow> string list" where
  "Split [] = [[]]"
| "Split (c # s) =
     (if c = tab then [] # Split s
      else (case Split s of f # fs \<Rightarrow> (c # f) # fs | [] \<Rightarrow> [[c]]))"

text \<open>
  \<open>time.Parse("2006-01-02T15:04:05.000Z0700", value)\<close>. The layout is a four-digit
  year, \<open>-\<close>, a two-digit month, \<open>-\<close>, a two-digit day, \<open>T\<close>, the hour, \<open>:\<close>, a
  two-digit minute, \<open>:\<close>, a two-digit second, a fraction of exactly three digits, and
  the zone: \<open>Z\<close> or a sign with two digits of hours and two of minutes. The model follows
  the library function chunk by chunk, with the helpers of \<open>time/format.go\<close>:
  \<^item> \<open>getnum\<close> reads two digits, or one when \<open>fixed\<close> is false: the layout's hour
    \<open>15\<close> is read with \<open>fixed = false\<close>, so a one-digit hour is accepted;
  \<^item> \<open>atoi\<close> accepts a sign, then digits only;
  \<^item> the fraction starts with a period or a comma (older releases of Go accept the
    period only);
  \<^item> the zone's hours are at most 24 and its minutes at most 60 (older releases of
    Go accept any two digits);
  \<^item> nothing may follow the zone, and the day is checked against the month last.
  Every failure of the library function is \<open>None\<close>: the converter does not look at the
  error it gets. Of the time parsed, the converter reads \<open>Unix()\<close> only; the model
  keeps the seconds since the epoch and the nanoseconds.
\<close>

definition isDigit :: "char \<Rightarrow> bool" where
  "isDigit c = ((48::nat) \<le> of_char c \<and> (of_char c::nat) \<le> 57)"

definition digitVal :: "char \<Rightarrow> int" where
  "digitVal c = int (of_char c) - 48"

fun getnum :: "string \<Rightarrow> bool \<Rightarrow> (int \<times> string) option" where
  "getnum [] fixed = None"
| "getnum [c] fixed =
     (if \<not> isDigit c then None else if fixed then None else Some (digitVal c, []))"
| "getnum (c # d # s) fixed =
     (if \<not> isDigit c then None
      else if \<not> isDigit d then (if fixed then None else Some (digitVal c, d # s))
      else Some (digitVal c * 10 + digitVal d, s))"

fun leadingInt :: "int \<Rightarrow> string \<Rightarrow> int \<times> string" where
  "leadingInt x [] = (x, [])"
| "leadingInt x (c # s) = (if isDigit c then leadingInt (x * 10 + digitVal c) s else (x, c # s))"

definition atoi :: "string \<Rightarrow> int option" where
  "atoi s =
     (let neg = (s \<noteq> [] \<and> hd s = CHR ''-'');
          s' = (if s \<noteq> [] \<and> (hd s = CHR ''-'' \<or> hd s = CHR ''+'') then tl s else s);
          (q, rem) = leadingInt 0 s'
      in if rem \<noteq> [] then None else Some (if neg then - q else q))"

definition skip :: "string \<Rightarrow> char \<Rightarrow> string option" where
  "skip v c = (case v of [] \<Rightarrow> None | d # r \<Rightarrow> if d = c then Some r else None)"

definition isLeap :: "int \<Rightarrow> bool" where
  "isLeap year = (year mod 4 = 0 \<and> (year mod 100 \<noteq> 0 \<or> year mod 400 = 0))"

definition daysIn :: "int \<Rightarrow> int \<Rightarrow> int" where
  "daysIn m year =
     (if m = 2 then (if isLeap year then 29 else 28)
      else if m = 4 \<or> m = 6 \<or> m = 9 \<or> m = 11 then 30 else 31)"

definition daysBefore :: "int list" where
  "daysBefore = [0, 31, 59, 90, 120, 151, 181, 212, 243, 273, 304, 334]"

text \<open>
  The days from 1970-01-01 to the given day of the proleptic Gregorian calendar, for a
  month from 1 to 12 (\<open>div\<close> on \<open>int\<close> rounds down, as the year 0 needs).
\<close>

definition daysSinceEpoch :: "int \<Rightarrow> int \<Rightarrow> int \<Rightarrow> int" where
  "daysSinceEpoch year m d =
     365 * (year - 1) + (year - 1) div 4 - (year - 1) div 100 + (year - 1) div 400 - 719162
     + daysBefore ! (nat (m - 1)) + (if isLeap year \<and> 3 \<le> m then 1 else 0) + (d - 1)"

record Time =
  unixSec :: int
  nsec :: int

definition Unix :: "Time \<Rightarrow> int" where
  "Unix t = unixSec t"

definition parseZone :: "string \<Rightarrow> (int \<times> string) option" where
  "parseZone v =
     (case v of
        [] \<Rightarrow> None
      | c # r \<Rightarrow>
          if c = CHR ''Z'' then Some (0, r)
          else if length v < 5 then None
          else do {
            (hr, _) \<leftarrow> getnum (take 2 r) True;
            (mm, _) \<leftarrow> getnum (take 2 (drop 2 r)) True;
            if hr > 24 \<or> mm > 60 then None
            else if c = CHR ''+'' then Some ((hr * 60 + mm) * 60, drop 4 r)
            else if c = CHR ''-'' then Some (- ((hr * 60 + mm) * 60), drop 4 r)
            else None
          })"

definition parseNanoseconds :: "string \<Rightarrow> int option" where
  "parseNanoseconds v =
     (if length v < 4 then None
      else if hd v \<noteq> CHR ''.'' \<and> hd v \<noteq> CHR '','' then None
      else do {
        ns \<leftarrow> atoi (take 3 (tl v));
        if ns < 0 then None else Some (ns * 1000000)
      })"

definition time_Parse :: "string \<Rightarrow> Time option" where
  "time_Parse value =
     (if length value < 4 \<or> \<not> isDigit (hd value) then None
      else do {
        year \<leftarrow> atoi (take 4 value);
        v \<leftarrow> skip (drop 4 value) (CHR ''-'');
        (month, v) \<leftarrow> getnum v True;
        if month \<le> 0 \<or> 12 < month then None else do {
        v \<leftarrow> skip v (CHR ''-'');
        (day, v) \<leftarrow> getnum v True;
        v \<leftarrow> skip v (CHR ''T'');
        (hour, v) \<leftarrow> getnum v False;
        if hour < 0 \<or> 24 \<le> hour then None else do {
        v \<leftarrow> skip v (CHR '':'');
        (minute, v) \<leftarrow> getnum v True;
        if minute < 0 \<or> 60 \<le> minute then None else do {
        v \<leftarrow> skip v (CHR '':'');
        (sec, v) \<leftarrow> getnum v True;
        if sec < 0 \<or> 60 \<le> sec then None else do {
        ns \<leftarrow> parseNanoseconds v;
        (zoneOffset, v) \<leftarrow> parseZone (drop 4 v);
        if v \<noteq> [] then None
        else if day < 1 \<or> day > daysIn month year then None
        else Some \<lparr>unixSec = daysSinceEpoch year month day * 86400
                               + hour * 3600 + minute * 60 + sec - zoneOffset,
                   nsec = ns\<rparr>
        }}}}})"

subsection \<open>The converter\<close>

text \<open>
  \<open>ConvertBytesToMessage\<close>: the record, trimmed, is split at the tabs; fewer than four
  or more than five parts are an unknown format; the first part is the time stamp; the
  fifth part, when there is one, is the JSON payload.
\<close>

definition ConvertBytesToMessage :: "string \<Rightarrow> Message \<times> error option" where
  "ConvertBytesToMessage b =
     (let parts = Split (TrimSpace b);
          pLen = length parts
      in if pLen < 4 \<or> pLen > 5 then (Message_zero, Some MalformedRecord)
         else (case time_Parse (parts ! 0) of
                 None \<Rightarrow> (Message_zero, Some InvalidTimestamp)
               | Some t \<Rightarrow>
                   (let m = \<lparr>Date = Unix t, LogLevel = parts ! 1, Location = parts ! 2,
                             Text = parts ! 3, JSON = []\<rparr>;
                        m = (if pLen > 4 then m\<lparr>JSON := parts ! 4\<rparr> else m)
                    in (m, None))))"

subsection \<open>Channels\<close>

text \<open>
  A buffered channel of Go: the messages waiting in its buffer, oldest first, its
  capacity, and whether it has been closed. A call either returns, panics, or blocks:
  \<^item> a send on a closed channel panics; on an open channel whose buffer is full it
    blocks until a receiver takes a message, and no receiver runs inside a call;
  \<^item> closing a closed channel panics;
  \<^item> a receive takes the oldest message; on an empty channel it returns the zero value
    and \<open>False\<close> when the channel is closed, and blocks when it is open.
\<close>

record chan =
  buf :: "Message list"
  cap :: nat
  closed :: bool

datatype 'a outcome = Returns 'a | Panics | Blocks

definition make_chan :: "nat \<Rightarrow> chan" where
  "make_chan n = \<lparr>buf = [], cap = n, closed = False\<rparr>"

definition chan_send :: "Message \<Rightarrow> chan \<Rightarrow> chan outcome" where
  "chan_send m c =
     (if closed c then Panics
      else if length (buf c) < cap c then Returns (c\<lparr>buf := buf c @ [m]\<rparr>)
      else Blocks)"

definition chan_close :: "chan \<Rightarrow> chan outcome" where
  "chan_close c = (if closed c then Panics else Returns (c\<lparr>closed := True\<rparr>))"

definition chan_recv :: "chan \<Rightarrow> ((Message \<times> bool) \<times> chan) outcome" where
  "chan_recv c =
     (case buf c of
        m # ms \<Rightarrow> Returns ((m, True), c\<lparr>buf := ms\<rparr>)
      | [] \<Rightarrow> if closed c then Returns ((Message_zero, False), c) else Blocks)"

text \<open>
  Channels are shared: the sink's map, the cancel function and the listener hold the
  same channel. The channels made so far are a list, and a channel value of the program
  is an index into it. An index outside the list is no channel of the program; an
  operation on it is made a panic, and the invariant below shows that none arises.
\<close>

definition on_chan :: "(chan \<Rightarrow> chan outcome) \<Rightarrow> nat \<Rightarrow> chan list \<Rightarrow> chan list outcome" where
  "on_chan f a h =
     (if a < length h
      then (case f (h ! a) of Returns c \<Rightarrow> Returns (h[a := c]) | Panics \<Rightarrow> Panics | Blocks \<Rightarrow> Blocks)
      else Panics)"

subsection \<open>The sink\<close>

text \<open>
  The struct \<open>OctantSink\<close> with the channels its listeners were given. The map
  \<open>listeners\<close> is an association list with one entry per key; Go ranges over a map in
  an unspecified order, and the list's order stands for one such order (the lemmas
  \<open>send_loop_order\<close> and \<open>Close_loop_order\<close> show that the order does not matter). The
  mutex is not modelled: every method is one step, as the write lock makes \<open>Listen\<close>,
  \<open>Close\<close> and the cancel function, and as a single writer makes \<open>Write\<close>. Two calls
  of \<open>Write\<close> running at once, which the read lock allows, are outside the model.
\<close>

record OctantSink =
  listeners :: "(string \<times> nat) list"
  converter :: "string \<Rightarrow> Message \<times> error option"
  heap :: "chan list"

text \<open>The function \<open>Listen\<close> returns: it has captured the channel and the id.\<close>

record ListenCancelFunc =
  cf_ch :: nat
  cf_id :: string

definition NewOctantSink :: "(OctantSink \<Rightarrow> OctantSink) list \<Rightarrow> OctantSink" where
  "NewOctantSink options =
     fold (\<lambda>option o'. option o') options
       \<lparr>listeners = [], converter = ConvertBytesToMessage, heap = []\<rparr>"

fun send_loop :: "Message \<Rightarrow> (string \<times> nat) list \<Rightarrow> chan list \<Rightarrow> chan list outcome" where
  "send_loop m [] h = Returns h"
| "send_loop m ((k, ch) # es) h =
     (case on_chan (chan_send m) ch h of
        Returns h' \<Rightarrow> send_loop m es h'
      | Panics \<Rightarrow> Panics
      | Blocks \<Rightarrow> Blocks)"

definition send :: "Message \<Rightarrow> OctantSink \<Rightarrow> OctantSink outcome" where
  "send m o' =
     (case send_loop m (listeners o') (heap o') of
        Returns h \<Rightarrow> Returns (o'\<lparr>heap := h\<rparr>)
      | Panics \<Rightarrow> Panics
      | Blocks \<Rightarrow> Blocks)"

definition Write :: "string \<Rightarrow> OctantSink \<Rightarrow> ((int \<times> error option) \<times> OctantSink) outcome" where
  "Write p o' =
     (case converter o' p of
        (m, Some err) \<Rightarrow> Returns ((0, Some (ConvertFailed err)), o')
      | (m, None) \<Rightarrow>
          (case send m o' of
             Returns o'' \<Rightarrow> Returns ((int (length p), None), o'')
           | Panics \<Rightarrow> Panics
           | Blocks \<Rightarrow> Blocks))"

definition Sync :: "OctantSink \<Rightarrow> error option" where
  "Sync o' = None"

fun Close_loop :: "(string \<times> nat) list \<Rightarrow> OctantSink \<Rightarrow> OctantSink outcome" where
  "Close_loop [] o' = Returns o'"
| "Close_loop ((k, ch) # es) o' =
     (case on_chan chan_close ch (heap o') of
        Returns h \<Rightarrow> Close_loop es (o'\<lparr>heap := h, listeners := AList.delete k (listeners o')\<rparr>)
      | Panics \<Rightarrow> Panics
      | Blocks \<Rightarrow> Blocks)"

definition Close :: "OctantSink \<Rightarrow> (error option \<times> OctantSink) outcome" where
  "Close o' =
     (case Close_loop (listeners o') o' of
        Returns o'' \<Rightarrow> Returns (None, o'')
      | Panics \<Rightarrow> Panics
      | Blocks \<Rightarrow> Blocks)"

text \<open>
  \<open>Listen\<close> draws its id with \<open>rand.String(6)\<close>; the id drawn is an argument of the
  model. The new channel is the next index of the heap.
\<close>

definition Listen :: "string \<Rightarrow> OctantSink \<Rightarrow> (nat \<times> ListenCancelFunc) \<times> OctantSink" where
  "Listen id' o' =
     (let ch = length (heap o')
      in ((ch, \<lparr>cf_ch = ch, cf_id = id'\<rparr>),
          o'\<lparr>heap := heap o' @ [make_chan 1000],
             listeners := AList.update id' ch (listeners o')\<rparr>))"

definition call_cancel :: "ListenCancelFunc \<Rightarrow> OctantSink \<Rightarrow> OctantSink outcome" where
  "call_cancel f o' =
     (case on_chan chan_close (cf_ch f) (heap o') of
        Returns h \<Rightarrow> Returns (o'\<lparr>heap := h, listeners := AList.delete (cf_id f) (listeners o')\<rparr>)
      | Panics \<Rightarrow> Panics
      | Blocks \<Rightarrow> Blocks)"

subsection \<open>The sink with its listeners\<close>

text \<open>
  A program that uses the sink holds what \<open>Listen\<close> returned to it: for each call the
  channel and the cancel function, and the messages it has received from the channel
  so far. A run is a list of calls, each completed before the next; calling the cancel
  function or receiving names the subscription by its number, and a number that names
  none does nothing. The run stops at the first call that panics or blocks.
\<close>

record subscriber =
  recv_ch :: nat
  cancel :: ListenCancelFunc
  inbox :: "Message list"

record world =
  sink :: OctantSink
  subs :: "subscriber list"

datatype op = Op_Write string | Op_Sync | Op_Close | Op_Listen string | Op_Cancel nat | Op_Recv nat

fun step :: "op \<Rightarrow> world \<Rightarrow> world outcome" where
  "step (Op_Write p) w =
     (case Write p (sink w) of
        Returns (r, o') \<Rightarrow> Returns (w\<lparr>sink := o'\<rparr>)
      | Panics \<Rightarrow> Panics
      | Blocks \<Rightarrow> Blocks)"
| "step Op_Sync w = Returns w"
| "step Op_Close w =
     (case Close (sink w) of
        Returns (r, o') \<Rightarrow> Returns (w\<lparr>sink := o'\<rparr>)
      | Panics \<Rightarrow> Panics
      | Blocks \<Rightarrow> Blocks)"
| "step (Op_Listen id') w =
     (case Listen id' (sink w) of
        ((ch, f), o') \<Rightarrow>
          Returns (w\<lparr>sink := o', subs := subs w @ [\<lparr>recv_ch = ch, cancel = f, inbox = []\<rparr>]\<rparr>))"
| "step (Op_Cancel k) w =
     (if k < length (subs w)
      then (case call_cancel (cancel (subs w ! k)) (sink w) of
              Returns o' \<Rightarrow> Returns (w\<lparr>sink := o'\<rparr>)
            | Panics \<Rightarrow> Panics
            | Blocks \<Rightarrow> Blocks)
      else Returns w)"
| "step (Op_Recv k) w =
     (if k < length (subs w) \<and> recv_ch (subs w ! k) < length (heap (sink w))
      then (case chan_recv (heap (sink w) ! recv_ch (subs w ! k)) of
              Returns ((m, ok), c) \<Rightarrow>
                Returns (w\<lparr>sink := (sink w)\<lparr>heap := (heap (sink w))[recv_ch (subs w ! k) := c]\<rparr>,
                           subs := (subs w)[k := (subs w ! k)
                              \<lparr>inbox := inbox (subs w ! k) @ (if ok then [m] else [])\<rparr>]\<rparr>)
            | Panics \<Rightarrow> Panics
            | Blocks \<Rightarrow> Blocks)
      else Returns w)"

fun exec :: "op list \<Rightarrow> world \<Rightarrow> world outcome" where
  "exec [] w = Returns w"
| "exec (x # xs) w =
     (case step x w of Returns w' \<Rightarrow> exec xs w' | Panics \<Rightarrow> Panics | Blocks \<Rightarrow> Blocks)"

definition NewWorld :: world where
  "NewWorld = \<lparr>sink = NewOctantSink [], subs = []\<rparr>"

subsection \<open>What the claims speak of\<close>

text \<open>
  The registry's invariant: every entry of the map holds a channel of the heap that is
  not closed.
\<close>

definition registry_inv :: "OctantSink \<Rightarrow> bool" where
  "registry_inv o' =
     (\<forall>(k, ch) \<in> set (listeners o'). ch < length (heap o') \<and> \<not> closed (heap o' ! ch))"

text \<open>
  Subscription \<open>k\<close> is registered when the map holds its id with its channel. The
  messages placed in its queue so far are those it has received followed by those still
  waiting in the channel. The messages ingested by a run are those of its calls of
  \<open>Write\<close> whose record the converter accepts.
\<close>

definition registered :: "nat \<Rightarrow> world \<Rightarrow> bool" where
  "registered k w =
     ((cf_id (cancel (subs w ! k)), recv_ch (subs w ! k)) \<in> set (listeners (sink w)))"

definition placed :: "nat \<Rightarrow> world \<Rightarrow> Message list" where
  "placed k w = inbox (subs w ! k) @ buf (heap (sink w) ! recv_ch (subs w ! k))"

fun ingested :: "op list \<Rightarrow> Message list" where
  "ingested [] = []"
| "ingested (Op_Write p # xs) =
     (case ConvertBytesToMessage p of
        (m, None) \<Rightarrow> m # ingested xs
      | (m, Some err) \<Rightarrow> ingested xs)"
| "ingested (x # xs) = ingested xs"

text \<open>
  A call draws a fresh id when it is not \<open>Listen\<close>, or the id it draws is no key of the
  map; a run draws fresh ids when each of its calls does, in the state it is made in.
\<close>

fun fresh_id :: "op \<Rightarrow> world \<Rightarrow> bool" where
  "fresh_id (Op_Listen id') w = (id' \<notin> fst ` set (listeners (sink w)))"
| "fresh_id x w = True"

fun fresh_run :: "op list \<Rightarrow> world \<Rightarrow> bool" where
  "fresh_run [] w = True"
| "fresh_run (x # xs) w =
     (fresh_id x w \<and> (case step x w of Returns w' \<Rightarrow> fresh_run xs w' | _ \<Rightarrow> True))"

text \<open>
  Between two states, every entry that has left the map had an open channel before and
  has a closed one after.
\<close>

definition removed_closed :: "world \<Rightarrow> world \<Rightarrow> bool" where
  "removed_closed w w' =
     (\<forall>(k, ch) \<in> set (listeners (sink w)).
        (k, ch) \<notin> set (listeners (sink w'))
          \<longrightarrow> \<not> closed (heap (sink w) ! ch) \<and> closed (heap (sink w') ! ch))"

text \<open>
  The invariant of the runs: the registry's invariant; the map has one entry per key
  and per channel; the \<open>k\<close>-th subscription holds channel \<open>k\<close>, in its receive end
  and in its cancel function; an entry's key is the id its channel's cancel function
  captured; the converter is the one the constructor set; every channel has capacity
  1000.
\<close>

definition wf_world :: "world \<Rightarrow> bool" where
  "wf_world w =
     (registry_inv (sink w)
      \<and> distinct (map fst (listeners (sink w)))
      \<and> distinct (map snd (listeners (sink w)))
      \<and> length (subs w) = length (heap (sink w))
      \<and> (\<forall>k < length (subs w). recv_ch (subs w ! k) = k \<and> cf_ch (cancel (subs w ! k)) = k)
      \<and> (\<forall>(id', ch) \<in> set (listeners (sink w)). cf_id (cancel (subs w ! ch)) = id')
      \<and> converter (sink w) = ConvertBytesToMessage
      \<and> (\<forall>c \<in> set (heap (sink w)). cap c = 1000))"

text \<open>Without a collision of ids, every channel that is open is in the map.\<close>

definition open_registered :: "world \<Rightarrow> bool" where
  "open_registered w =
     (\<forall>k < length (subs w). \<not> closed (heap (sink w) ! k) \<longrightarrow> registered k w)"

text \<open>
  In the specification's words the payload is everything after the fourth separator:
  \<open>after_sep n s\<close> is what follows the \<open>n\<close>-th tab of \<open>s\<close>.
\<close>

fun after_sep :: "nat \<Rightarrow> string \<Rightarrow> string" where
  "after_sep 0 s = s"
| "after_sep (Suc n) [] = []"
| "after_sep (Suc n) (c # s) = (if c = tab then after_sep n s else after_sep (Suc n) s)"

text \<open>The records of the examples.\<close>

definition example_record :: string where
  "example_record =
     ''2020-05-01T10:00:00.000Z'' @ [tab] @ ''error'' @ [tab] @ ''main.go:42'' @ [tab]
       @ ''something failed''"

definition example_message :: Message where
  "example_message =
     \<lparr>Date = 1588327200, LogLevel = ''error'', Location = ''main.go:42'',
      Text = ''something failed'', JSON = []\<rparr>"

text \<open>
  States written out: a channel of capacity 1000, a subscription as \<open>Listen\<close> returns
  it, and a sink with the converter of the constructor.
\<close>

definition mk_chan :: "Message list \<Rightarrow> bool \<Rightarrow> chan" where
  "mk_chan ms c = \<lparr>buf = ms, cap = 1000, closed = c\<rparr>"

definition mk_sub :: "string \<Rightarrow> nat \<Rightarrow> Message list \<Rightarrow> subscriber" where
  "mk_sub i ch ms = \<lparr>recv_ch = ch, cancel = \<lparr>cf_ch = ch, cf_id = i\<rparr>, inbox = ms\<rparr>"

definition mk_world :: "(string \<times> nat) list \<Rightarrow> chan list \<Rightarrow> subscriber list \<Rightarrow> world" where
  "mk_world ls h ss =
     \<lparr>sink = \<lparr>listeners = ls, converter = ConvertBytesToMessage, heap = h\<rparr>, subs = ss\<rparr>"

text \<open>
  The state after one call of \<open>Listen\<close> on a new sink; a record with a payload and its
  message; the state after \<open>Listen\<close> and 1000 records written, none received.
\<close>

definition one_listener :: world where
  "one_listener = mk_world [(''bcdfgh'', 0)] [mk_chan [] False] [mk_sub ''bcdfgh'' 0 []]"

definition payload_record :: string where
  "payload_record = example_record @ [tab] @ ''{}''"

definition payload_message :: Message where
  "payload_message = example_message\<lparr>JSON := ''{}''\<rparr>"

definition full_world :: world where
  "full_world =
     mk_world [(''bcdfgh'', 0)] [mk_chan (replicate 1000 example_message) False]
       [mk_sub ''bcdfgh'' 0 []]"

text \<open>Whether a call has returned.\<close>

definition returned :: "'a outcome \<Rightarrow> bool" where
  "returned r = (case r of Returns x \<Rightarrow> True | Panics \<Rightarrow> False | Blocks \<Rightarrow> False)"

section \<open>The converter: fields, time stamp, payload\<close>

lemma Split_not_Nil: "Split s \<noteq> []"
  by (induction s) (auto split: list.splits)

lemma length_Split: "length (Split s) = Suc (count_list s tab)"
  using Split_not_Nil by (induction s) (auto split: list.splits)

lemma hd_Split: "hd (Split s) = takeWhile (\<lambda>c. c \<noteq> tab) s"
  using Split_not_Nil by (induction s) (auto split: list.splits)

lemma tl_Split_notab: "c \<noteq> tab \<Longrightarrow> tl (Split (c # s)) = tl (Split s)"
  using Split_not_Nil [of s] by (auto split: list.splits)

lemma Split_nth:
  "n \<le> count_list s tab \<Longrightarrow> Split s ! n = takeWhile (\<lambda>c. c \<noteq> tab) (after_sep n s)"
proof (induction n s rule: after_sep.induct)
  case (1 s)
  then show ?case using hd_Split [of s] Split_not_Nil [of s] by (simp add: hd_conv_nth)
next
  case (2 n)
  then show ?case by simp
next
  case (3 n c s)
  show ?case
  proof (cases "c = tab")
    case True
    with 3 show ?thesis by simp
  next
    case False
    with 3 have le: "Suc n \<le> count_list s tab" by simp
    from False have "Split (c # s) ! Suc n = tl (Split (c # s)) ! n"
      using Split_not_Nil [of "c # s"] by (metis list.collapse nth_Cons_Suc)
    also have "\<dots> = tl (Split s) ! n" using tl_Split_notab [OF False, of s] by simp
    also have "\<dots> = Split s ! Suc n"
      using Split_not_Nil [of s] by (metis list.collapse nth_Cons_Suc)
    finally show ?thesis using 3 False le by simp
  qed
qed

lemma count_after_sep:
  "n \<le> count_list s tab \<Longrightarrow> count_list (after_sep n s) tab = count_list s tab - n"
  by (induction n s rule: after_sep.induct) auto

lemma takeWhile_notab: "count_list s tab = 0 \<Longrightarrow> takeWhile (\<lambda>c. c \<noteq> tab) s = s"
  by (induction s) (auto split: if_splits)

lemma Split_last_field: "count_list s tab = n \<Longrightarrow> Split s ! n = after_sep n s"
  using Split_nth [of n s] count_after_sep [of n s] takeWhile_notab [of "after_sep n s"]
  by simp

lemma CBM_malformed:
  "length (Split (TrimSpace b)) < 4 \<or> length (Split (TrimSpace b)) > 5
   \<Longrightarrow> ConvertBytesToMessage b = (Message_zero, Some MalformedRecord)"
  by (auto simp: ConvertBytesToMessage_def Let_def)

lemma CBM_timestamp:
  "\<not> (length (Split (TrimSpace b)) < 4 \<or> length (Split (TrimSpace b)) > 5)
   \<Longrightarrow> time_Parse (Split (TrimSpace b) ! 0) = None
   \<Longrightarrow> ConvertBytesToMessage b = (Message_zero, Some InvalidTimestamp)"
  by (simp add: ConvertBytesToMessage_def Let_def)

lemma CBM_ok:
  "\<not> (length (Split (TrimSpace b)) < 4 \<or> length (Split (TrimSpace b)) > 5)
   \<Longrightarrow> time_Parse (Split (TrimSpace b) ! 0) = Some t
   \<Longrightarrow> ConvertBytesToMessage b =
         (\<lparr>Date = Unix t, LogLevel = Split (TrimSpace b) ! 1,
           Location = Split (TrimSpace b) ! 2, Text = Split (TrimSpace b) ! 3,
           JSON = (if length (Split (TrimSpace b)) > 4 then Split (TrimSpace b) ! 4 else [])\<rparr>,
          None)"
  by (simp add: ConvertBytesToMessage_def Let_def)

lemma Write_converter_error:
  "converter o' p = (m, Some e) \<Longrightarrow> Write p o' = Returns ((0, Some (ConvertFailed e)), o')"
  by (simp add: Write_def)

lemma one_listener_converter: "converter (sink one_listener) = ConvertBytesToMessage"
  by (simp add: one_listener_def mk_world_def)

lemma one_listener_reached: "step (Op_Listen ''bcdfgh'') NewWorld = Returns one_listener"
  by (simp add: one_listener_def mk_world_def mk_chan_def mk_sub_def NewWorld_def
      NewOctantSink_def Listen_def make_chan_def Let_def)

text \<open>
  Claim C1. A record that, trimmed and split at the tabs, has fewer than four or more
  than five fields is refused: \<open>Write\<close> returns 0 bytes and the error of the unknown
  format (wrapped by \<open>Write\<close>), and the sink it returns is the sink it was given, so no
  listener's channel has received anything; in a run the call leaves the whole state
  as it was.
\<close>

theorem C1_malformed_record:
  assumes "converter (sink w) = ConvertBytesToMessage"
    and "length (Split (TrimSpace p)) < 4 \<or> length (Split (TrimSpace p)) > 5"
  shows "Write p (sink w) = Returns ((0, Some (ConvertFailed MalformedRecord)), sink w)
         \<and> step (Op_Write p) w = Returns w"
proof -
  from assms
  have wr: "Write p (sink w) = Returns ((0, Some (ConvertFailed MalformedRecord)), sink w)"
    using CBM_malformed [of p]
      Write_converter_error [of "sink w" p Message_zero MalformedRecord]
    by simp
  then show ?thesis by simp
qed

theorem C1_malformed_record_witness:
  "converter (sink one_listener) = ConvertBytesToMessage
   \<and> length (Split (TrimSpace ''garbage'')) < 4
   \<and> Write ''garbage'' (sink one_listener)
       = Returns ((0, Some (ConvertFailed MalformedRecord)), sink one_listener)
   \<and> step (Op_Write ''garbage'') one_listener = Returns one_listener"
proof -
  have len: "length (Split (TrimSpace ''garbage'')) < 4" by code_simp
  then have h: "length (Split (TrimSpace ''garbage'')) < 4
      \<or> length (Split (TrimSpace ''garbage'')) > 5" by simp
  show ?thesis
    using len C1_malformed_record [OF one_listener_converter h]
    by (simp only: one_listener_converter simp_thms)
qed

text \<open>
  Claim C2 as stated fails: \<open>strings.Split\<close> splits at every tab, so a tab inside the
  payload makes a sixth field and the record is refused. Here the payload would be
  \<open>a\<close>, a tab, \<open>b\<close>.
\<close>

theorem C2_embedded_separator_counterexample:
  "after_sep 4 (example_record @ [tab] @ ''a'' @ [tab] @ ''b'') = ''a'' @ [tab] @ ''b''
   \<and> ConvertBytesToMessage (example_record @ [tab] @ ''a'' @ [tab] @ ''b'')
       = (Message_zero, Some MalformedRecord)"
  unfolding example_record_def by code_simp

text \<open>
  Claim C2, amended. A record whose trimmed form holds exactly four tabs, and whose
  first field is a time stamp, is accepted, and its payload is everything after the
  fourth tab of the trimmed record, unchanged. A record whose trimmed form holds more
  than four tabs (a tab inside the payload) is refused as an unknown format.
\<close>

theorem C2_payload_after_fourth_separator:
  "(count_list (TrimSpace b) tab = 4 \<and> time_Parse (Split (TrimSpace b) ! 0) \<noteq> None
      \<longrightarrow> snd (ConvertBytesToMessage b) = None
          \<and> JSON (fst (ConvertBytesToMessage b)) = after_sep 4 (TrimSpace b))
   \<and> (count_list (TrimSpace b) tab > 4
      \<longrightarrow> ConvertBytesToMessage b = (Message_zero, Some MalformedRecord))"
proof (intro conjI impI)
  assume h: "count_list (TrimSpace b) tab = 4 \<and> time_Parse (Split (TrimSpace b) ! 0) \<noteq> None"
  then obtain t where t: "time_Parse (Split (TrimSpace b) ! 0) = Some t" by auto
  from h have len: "length (Split (TrimSpace b)) = 5" by (simp add: length_Split)
  from len t have "ConvertBytesToMessage b =
         (\<lparr>Date = Unix t, LogLevel = Split (TrimSpace b) ! 1,
           Location = Split (TrimSpace b) ! 2, Text = Split (TrimSpace b) ! 3,
           JSON = Split (TrimSpace b) ! 4\<rparr>, None)"
    using CBM_ok [of b t] by simp
  moreover from h have "Split (TrimSpace b) ! 4 = after_sep 4 (TrimSpace b)"
    using Split_last_field [of "TrimSpace b" 4] by simp
  ultimately show "snd (ConvertBytesToMessage b) = None"
    and "JSON (fst (ConvertBytesToMessage b)) = after_sep 4 (TrimSpace b)" by simp_all
next
  assume "count_list (TrimSpace b) tab > 4"
  then show "ConvertBytesToMessage b = (Message_zero, Some MalformedRecord)"
    using CBM_malformed [of b] by (simp add: length_Split)
qed

theorem C2_payload_after_fourth_separator_witness:
  "count_list (TrimSpace (example_record @ [tab] @ ''{k: 1} '')) tab = 4
   \<and> time_Parse (Split (TrimSpace (example_record @ [tab] @ ''{k: 1} '')) ! 0) \<noteq> None
   \<and> snd (ConvertBytesToMessage (example_record @ [tab] @ ''{k: 1} '')) = None
   \<and> JSON (fst (ConvertBytesToMessage (example_record @ [tab] @ ''{k: 1} ''))) = ''{k: 1}''
   \<and> count_list (TrimSpace (example_record @ [tab] @ ''a'' @ [tab] @ ''b'')) tab > 4
   \<and> ConvertBytesToMessage (example_record @ [tab] @ ''a'' @ [tab] @ ''b'')
       = (Message_zero, Some MalformedRecord)"
proof -
  have c4: "count_list (TrimSpace (example_record @ [tab] @ ''{k: 1} '')) tab = 4"
    unfolding example_record_def by code_simp
  have tp: "time_Parse (Split (TrimSpace (example_record @ [tab] @ ''{k: 1} '')) ! 0) \<noteq> None"
    unfolding example_record_def by code_simp
  have af: "after_sep 4 (TrimSpace (example_record @ [tab] @ ''{k: 1} '')) = ''{k: 1}''"
    unfolding example_record_def by code_simp
  have c5: "count_list (TrimSpace (example_record @ [tab] @ ''a'' @ [tab] @ ''b'')) tab > 4"
    unfolding example_record_def by code_simp
  show ?thesis
    using c4 tp af c5
      C2_payload_after_fourth_separator [of "example_record @ [tab] @ ''{k: 1} ''"]
      C2_payload_after_fourth_separator [of "example_record @ [tab] @ ''a'' @ [tab] @ ''b''"]
    by simp
qed

text \<open>
  Claim C3. A record of four or five fields whose first field \<open>time.Parse\<close> refuses is
  refused: \<open>Write\<close> returns 0 bytes and the error of the invalid time stamp (wrapped by
  \<open>Write\<close>), the sink is returned as it was given, and in a run the call leaves the
  whole state as it was.
\<close>

theorem C3_invalid_timestamp:
  assumes "converter (sink w) = ConvertBytesToMessage"
    and "length (Split (TrimSpace p)) = 4 \<or> length (Split (TrimSpace p)) = 5"
    and "time_Parse (Split (TrimSpace p) ! 0) = None"
  shows "Write p (sink w) = Returns ((0, Some (ConvertFailed InvalidTimestamp)), sink w)
         \<and> step (Op_Write p) w = Returns w"
proof -
  from assms(2) have "\<not> (length (Split (TrimSpace p)) < 4 \<or> length (Split (TrimSpace p)) > 5)"
    by auto
  with assms
  have wr: "Write p (sink w) = Returns ((0, Some (ConvertFailed InvalidTimestamp)), sink w)"
    using CBM_timestamp [of p]
      Write_converter_error [of "sink w" p Message_zero InvalidTimestamp]
    by simp
  then show ?thesis by simp
qed

theorem C3_invalid_timestamp_witness:
  "converter (sink one_listener) = ConvertBytesToMessage
   \<and> length (Split (TrimSpace (''2020-05-01 10:00:00'' @ [tab] @ ''a'' @ [tab] @ ''b''
        @ [tab] @ ''c''))) = 4
   \<and> time_Parse (Split (TrimSpace (''2020-05-01 10:00:00'' @ [tab] @ ''a'' @ [tab] @ ''b''
        @ [tab] @ ''c'')) ! 0) = None
   \<and> Write (''2020-05-01 10:00:00'' @ [tab] @ ''a'' @ [tab] @ ''b'' @ [tab] @ ''c'')
         (sink one_listener)
       = Returns ((0, Some (ConvertFailed InvalidTimestamp)), sink one_listener)
   \<and> step (Op_Write (''2020-05-01 10:00:00'' @ [tab] @ ''a'' @ [tab] @ ''b'' @ [tab] @ ''c''))
         one_listener = Returns one_listener"
proof -
  let ?p = "''2020-05-01 10:00:00'' @ [tab] @ ''a'' @ [tab] @ ''b'' @ [tab] @ ''c''"
  have len: "length (Split (TrimSpace ?p)) = 4" by code_simp
  then have h: "length (Split (TrimSpace ?p)) = 4 \<or> length (Split (TrimSpace ?p)) = 5"
    by simp
  have tp: "time_Parse (Split (TrimSpace ?p) ! 0) = None" by code_simp
  show ?thesis
    using len tp C3_invalid_timestamp [OF one_listener_converter h tp]
    by (simp only: one_listener_converter simp_thms)
qed

text \<open>
  Claim C4. The example record of the specification is converted without error to the
  message with the date 1588327200 (the seconds from 1970-01-01T00:00:00Z to
  2020-05-01T10:00:00Z), the level \<open>error\<close>, the location \<open>main.go:42\<close>, the text
  \<open>something failed\<close> and no payload.
\<close>

theorem C4_example_record:
  "ConvertBytesToMessage
     (''2020-05-01T10:00:00.000Z'' @ [tab] @ ''error'' @ [tab] @ ''main.go:42'' @ [tab]
        @ ''something failed'')
   = (\<lparr>Date = 1588327200, LogLevel = ''error'', Location = ''main.go:42'',
       Text = ''something failed'', JSON = []\<rparr>, None)"
  by code_simp

text \<open>
  Claim C10. A record of exactly four fields that is converted without error has the
  empty string as its payload; and whenever the converter returns an error, the
  message it returns with it is the zero message.
\<close>

theorem C10_absent_payload_and_zero_message:
  "(length (Split (TrimSpace b)) = 4 \<and> snd (ConvertBytesToMessage b) = None
      \<longrightarrow> JSON (fst (ConvertBytesToMessage b)) = [])
   \<and> (snd (ConvertBytesToMessage b) \<noteq> None \<longrightarrow> fst (ConvertBytesToMessage b) = Message_zero)"
  by (auto simp: ConvertBytesToMessage_def Let_def split: option.splits)

theorem C10_absent_payload_and_zero_message_witness:
  "length (Split (TrimSpace example_record)) = 4
   \<and> snd (ConvertBytesToMessage example_record) = None
   \<and> JSON (fst (ConvertBytesToMessage example_record)) = []
   \<and> snd (ConvertBytesToMessage ''garbage'') \<noteq> None
   \<and> fst (ConvertBytesToMessage ''garbage'') = Message_zero"
proof -
  have a: "length (Split (TrimSpace example_record)) = 4"
    unfolding example_record_def by code_simp
  have b: "snd (ConvertBytesToMessage example_record) = None"
    unfolding example_record_def by code_simp
  have c: "snd (ConvertBytesToMessage ''garbage'') \<noteq> None" by code_simp
  show ?thesis
    using a b c C10_absent_payload_and_zero_message [of example_record]
      C10_absent_payload_and_zero_message [of "''garbage''"]
    by simp
qed

section \<open>The sink: channels, loops and the invariant of the runs\<close>

lemma close_Returns:
  "on_chan chan_close a h = Returns h' \<longleftrightarrow>
     (a < length h \<and> \<not> closed (h ! a) \<and> h' = h[a := (h ! a)\<lparr>closed := True\<rparr>])"
  by (auto simp: on_chan_def chan_close_def)

lemma close_Panics:
  "on_chan chan_close a h = Panics \<longleftrightarrow> (\<not> a < length h \<or> closed (h ! a))"
  by (auto simp: on_chan_def chan_close_def)

lemma close_not_Blocks: "on_chan chan_close a h \<noteq> Blocks"
  by (auto simp: on_chan_def chan_close_def)

lemma send_Returns:
  "on_chan (chan_send m) a h = Returns h' \<longleftrightarrow>
     (a < length h \<and> \<not> closed (h ! a) \<and> length (buf (h ! a)) < cap (h ! a)
      \<and> h' = h[a := (h ! a)\<lparr>buf := buf (h ! a) @ [m]\<rparr>])"
  by (auto simp: on_chan_def chan_send_def)

lemma send_Panics:
  "on_chan (chan_send m) a h = Panics \<longleftrightarrow> (\<not> a < length h \<or> closed (h ! a))"
  by (auto simp: on_chan_def chan_send_def)

lemma send_Blocks:
  "on_chan (chan_send m) a h = Blocks \<longleftrightarrow>
     (a < length h \<and> \<not> closed (h ! a) \<and> \<not> length (buf (h ! a)) < cap (h ! a))"
  by (auto simp: on_chan_def chan_send_def)

lemma send_loop_effect:
  "send_loop m es h = Returns h' \<Longrightarrow> distinct (map snd es) \<Longrightarrow>
   length h' = length h
   \<and> (\<forall>a < length h. h' ! a =
         (if a \<in> snd ` set es then (h ! a)\<lparr>buf := buf (h ! a) @ [m]\<rparr> else h ! a))"
proof (induction es arbitrary: h)
  case Nil
  then show ?case by simp
next
  case (Cons e es)
  obtain k a where e: "e = (k, a)" by (cases e)
  from Cons.prems(1) e obtain h1 where h1: "on_chan (chan_send m) a h = Returns h1"
    and rest: "send_loop m es h1 = Returns h'"
    by (auto split: outcome.splits)
  from h1 have a: "a < length h" and h1_eq: "h1 = h[a := (h ! a)\<lparr>buf := buf (h ! a) @ [m]\<rparr>]"
    by (simp_all add: send_Returns)
  from Cons.prems(2) e have d: "distinct (map snd es)" and na: "a \<notin> snd ` set es" by auto
  from Cons.IH [OF rest d]
  have len: "length h' = length h1"
    and eff: "\<forall>b < length h1. h' ! b =
         (if b \<in> snd ` set es then (h1 ! b)\<lparr>buf := buf (h1 ! b) @ [m]\<rparr> else h1 ! b)"
    by simp_all
  show ?case
  proof (intro conjI allI impI)
    show "length h' = length h" using len h1_eq by simp
  next
    fix b assume b: "b < length h"
    then have b1: "b < length h1" using h1_eq by simp
    show "h' ! b = (if b \<in> snd ` set (e # es) then (h ! b)\<lparr>buf := buf (h ! b) @ [m]\<rparr> else h ! b)"
    proof (cases "b = a")
      case True
      with eff b1 na have "h' ! b = h1 ! a" by simp
      with True a h1_eq e show ?thesis by simp
    next
      case False
      with h1_eq have "h1 ! b = h ! b" by simp
      with eff b1 False e show ?thesis by simp
    qed
  qed
qed

lemma send_loop_returns:
  "distinct (map snd es) \<Longrightarrow>
   \<forall>(k, a) \<in> set es. a < length h \<and> \<not> closed (h ! a) \<and> length (buf (h ! a)) < cap (h ! a) \<Longrightarrow>
   \<exists>h'. send_loop m es h = Returns h'"
proof (induction es arbitrary: h)
  case Nil
  then show ?case by simp
next
  case (Cons e es)
  obtain k a where e: "e = (k, a)" by (cases e)
  let ?h1 = "h[a := (h ! a)\<lparr>buf := buf (h ! a) @ [m]\<rparr>]"
  from Cons.prems e have h1: "on_chan (chan_send m) a h = Returns ?h1"
    by (simp add: send_Returns)
  from Cons.prems(1) e have d: "distinct (map snd es)" and na: "a \<notin> snd ` set es" by auto
  have "\<forall>(k', b) \<in> set es. b < length ?h1 \<and> \<not> closed (?h1 ! b)
           \<and> length (buf (?h1 ! b)) < cap (?h1 ! b)"
  proof (clarify)
    fix k' b assume kb: "(k', b) \<in> set es"
    with na have "b \<noteq> a" by force
    with Cons.prems(2) kb show "b < length ?h1 \<and> \<not> closed (?h1 ! b)
           \<and> length (buf (?h1 ! b)) < cap (?h1 ! b)" by auto
  qed
  from Cons.IH [OF d this] obtain h' where "send_loop m es ?h1 = Returns h'" by blast
  with h1 e show ?case by simp
qed

lemma send_loop_no_panic:
  "\<forall>(k, a) \<in> set es. a < length h \<and> \<not> closed (h ! a) \<Longrightarrow> send_loop m es h \<noteq> Panics"
proof (induction es arbitrary: h)
  case Nil
  then show ?case by simp
next
  case (Cons e es)
  obtain k a where e: "e = (k, a)" by (cases e)
  from Cons.prems e have np: "on_chan (chan_send m) a h \<noteq> Panics"
    by (simp add: send_Panics)
  show ?case
  proof (cases "on_chan (chan_send m) a h")
    case (Returns h1)
    then have h1_eq: "h1 = h[a := (h ! a)\<lparr>buf := buf (h ! a) @ [m]\<rparr>]"
      by (simp add: send_Returns)
    have "\<forall>(k', b) \<in> set es. b < length h1 \<and> \<not> closed (h1 ! b)"
    proof (clarify)
      fix k' b assume kb: "(k', b) \<in> set es"
      with Cons.prems have "b < length h" "\<not> closed (h ! b)" by auto
      then show "b < length h1 \<and> \<not> closed (h1 ! b)"
        using h1_eq by (cases "b = a") simp_all
    qed
    from Cons.IH [OF this] Returns e show ?thesis by simp
  next
    case Panics
    with np show ?thesis by simp
  next
    case Blocks
    with e show ?thesis by simp
  qed
qed

lemma Close_loop_effect:
  "distinct (map snd es) \<Longrightarrow>
   \<forall>(k, a) \<in> set es. a < length (heap o') \<and> \<not> closed (heap o' ! a) \<Longrightarrow>
   \<exists>o''. Close_loop es o' = Returns o''
     \<and> converter o'' = converter o'
     \<and> length (heap o'') = length (heap o')
     \<and> (\<forall>a < length (heap o'). heap o'' ! a =
           (if a \<in> snd ` set es then (heap o' ! a)\<lparr>closed := True\<rparr> else heap o' ! a))
     \<and> listeners o'' = filter (\<lambda>e. fst e \<notin> fst ` set es) (listeners o')"
proof (induction es arbitrary: o')
  case Nil
  then show ?case by simp
next
  case (Cons e es)
  obtain k a where e: "e = (k, a)" by (cases e)
  let ?h1 = "(heap o')[a := (heap o' ! a)\<lparr>closed := True\<rparr>]"
  let ?o1 = "o'\<lparr>heap := ?h1, listeners := AList.delete k (listeners o')\<rparr>"
  from Cons.prems e have a: "a < length (heap o')"
    and h1: "on_chan chan_close a (heap o') = Returns ?h1"
    by (simp_all add: close_Returns)
  from Cons.prems(1) e have d: "distinct (map snd es)" and na: "a \<notin> snd ` set es" by auto
  have pre: "\<forall>(k', b) \<in> set es. b < length (heap ?o1) \<and> \<not> closed (heap ?o1 ! b)"
  proof (clarify)
    fix k' b assume kb: "(k', b) \<in> set es"
    with na have "b \<noteq> a" by force
    with Cons.prems(2) kb show "b < length (heap ?o1) \<and> \<not> closed (heap ?o1 ! b)" by auto
  qed
  from Cons.IH [OF d pre] obtain o'' where
    r: "Close_loop es ?o1 = Returns o''"
    and c: "converter o'' = converter ?o1"
    and l: "length (heap o'') = length (heap ?o1)"
    and eff: "\<forall>b < length (heap ?o1). heap o'' ! b =
           (if b \<in> snd ` set es then (heap ?o1 ! b)\<lparr>closed := True\<rparr> else heap ?o1 ! b)"
    and ls: "listeners o'' = filter (\<lambda>e. fst e \<notin> fst ` set es) (listeners ?o1)"
    by blast
  have "Close_loop (e # es) o' = Returns o''" using h1 r e by simp
  moreover have "converter o'' = converter o'" using c by simp
  moreover have "length (heap o'') = length (heap o')" using l by simp
  moreover have "\<forall>b < length (heap o'). heap o'' ! b =
           (if b \<in> snd ` set (e # es) then (heap o' ! b)\<lparr>closed := True\<rparr> else heap o' ! b)"
  proof (intro allI impI)
    fix b assume b: "b < length (heap o')"
    show "heap o'' ! b =
           (if b \<in> snd ` set (e # es) then (heap o' ! b)\<lparr>closed := True\<rparr> else heap o' ! b)"
    proof (cases "b = a")
      case True
      with eff b na a e show ?thesis by simp
    next
      case False
      with eff b e show ?thesis by simp
    qed
  qed
  moreover have "listeners o'' = filter (\<lambda>x. fst x \<notin> fst ` set (e # es)) (listeners o')"
    using ls e by (auto simp: AList.delete_eq intro: filter_cong)
  ultimately show ?case by blast
qed

lemma Close_effect:
  assumes "registry_inv o'" and "distinct (map snd (listeners o'))"
  shows "\<exists>o''. Close o' = Returns (None, o'')
     \<and> converter o'' = converter o'
     \<and> length (heap o'') = length (heap o')
     \<and> (\<forall>a < length (heap o'). heap o'' ! a =
           (if a \<in> snd ` set (listeners o') then (heap o' ! a)\<lparr>closed := True\<rparr>
            else heap o' ! a))
     \<and> listeners o'' = []"
proof -
  from assms(1) have "\<forall>(k, a) \<in> set (listeners o'). a < length (heap o') \<and> \<not> closed (heap o' ! a)"
    by (simp add: registry_inv_def)
  from Close_loop_effect [OF assms(2) this] obtain o'' where
    r: "Close_loop (listeners o') o' = Returns o''"
    and c: "converter o'' = converter o'"
    and l: "length (heap o'') = length (heap o')"
    and eff: "\<forall>a < length (heap o'). heap o'' ! a =
           (if a \<in> snd ` set (listeners o') then (heap o' ! a)\<lparr>closed := True\<rparr>
            else heap o' ! a)"
    and ls: "listeners o'' = filter (\<lambda>e. fst e \<notin> fst ` set (listeners o')) (listeners o')"
    by blast
  from ls have "listeners o'' = []" by (simp add: filter_empty_conv)
  with r c l eff show ?thesis by (simp add: Close_def)
qed


lemma set_update_subset: "set (AList.update k v al) \<subseteq> insert (k, v) (set al)"
  by (induction al) auto

lemma update_mem: "(k, v) \<in> set (AList.update k v al)"
  by (induction al) auto

lemma distinct_snd_update:
  "distinct (map snd al) \<Longrightarrow> v \<notin> snd ` set al \<Longrightarrow> distinct (map snd (AList.update k v al))"
proof (induction al)
  case Nil
  then show ?case by simp
next
  case (Cons e al)
  have sub: "snd ` set (AList.update k v al) \<subseteq> insert v (snd ` set al)"
    using set_update_subset [of k v al] by force
  from Cons show ?case using sub by (cases e) (auto simp: image_iff)
qed

lemma set_delete: "set (AList.delete k al) = {e \<in> set al. fst e \<noteq> k}"
  by (auto simp: AList.delete_eq)

lemma distinct_snd_delete:
  "distinct (map snd al) \<Longrightarrow> distinct (map snd (AList.delete k al))"
  by (simp add: AList.delete_eq distinct_map_filter)

lemma wf_worldI:
  assumes "registry_inv (sink w)"
    and "distinct (map fst (listeners (sink w)))"
    and "distinct (map snd (listeners (sink w)))"
    and "length (subs w) = length (heap (sink w))"
    and "\<And>k. k < length (subs w) \<Longrightarrow> recv_ch (subs w ! k) = k \<and> cf_ch (cancel (subs w ! k)) = k"
    and "\<And>id' ch. (id', ch) \<in> set (listeners (sink w)) \<Longrightarrow> cf_id (cancel (subs w ! ch)) = id'"
    and "converter (sink w) = ConvertBytesToMessage"
    and "\<And>c. c \<in> set (heap (sink w)) \<Longrightarrow> cap c = 1000"
  shows "wf_world w"
  using assms unfolding wf_world_def by blast

lemma wf_inv: "wf_world w \<Longrightarrow> registry_inv (sink w)"
  and wf_keys: "wf_world w \<Longrightarrow> distinct (map fst (listeners (sink w)))"
  and wf_vals: "wf_world w \<Longrightarrow> distinct (map snd (listeners (sink w)))"
  and wf_len: "wf_world w \<Longrightarrow> length (subs w) = length (heap (sink w))"
  and wf_conv: "wf_world w \<Longrightarrow> converter (sink w) = ConvertBytesToMessage"
  unfolding wf_world_def by blast+

lemma wf_sub:
  "wf_world w \<Longrightarrow> k < length (subs w) \<Longrightarrow>
   recv_ch (subs w ! k) = k \<and> cf_ch (cancel (subs w ! k)) = k"
  unfolding wf_world_def by blast

lemma wf_entry:
  "wf_world w \<Longrightarrow> (id', ch) \<in> set (listeners (sink w)) \<Longrightarrow> cf_id (cancel (subs w ! ch)) = id'"
  unfolding wf_world_def by blast

lemma wf_cap: "wf_world w \<Longrightarrow> c \<in> set (heap (sink w)) \<Longrightarrow> cap c = 1000"
  unfolding wf_world_def by blast

lemma inv_entry:
  "registry_inv o' \<Longrightarrow> (k, ch) \<in> set (listeners o') \<Longrightarrow>
   ch < length (heap o') \<and> \<not> closed (heap o' ! ch)"
  unfolding registry_inv_def by blast

lemma registry_invI:
  "(\<And>k ch. (k, ch) \<in> set (listeners o') \<Longrightarrow> ch < length (heap o') \<and> \<not> closed (heap o' ! ch))
   \<Longrightarrow> registry_inv o'"
  unfolding registry_inv_def by blast

lemma wf_NewWorld: "wf_world NewWorld"
  by (simp add: wf_world_def NewWorld_def NewOctantSink_def registry_inv_def)

text \<open>What a call of \<open>Write\<close> that returns has done.\<close>

lemma Write_step_effect:
  assumes wf: "wf_world w" and st: "step (Op_Write p) w = Returns w'"
  shows "subs w' = subs w"
    and "listeners (sink w') = listeners (sink w)"
    and "converter (sink w') = converter (sink w)"
    and "length (heap (sink w')) = length (heap (sink w))"
    and "\<forall>a < length (heap (sink w)). heap (sink w') ! a =
           (if snd (ConvertBytesToMessage p) = None \<and> a \<in> snd ` set (listeners (sink w))
            then (heap (sink w) ! a)\<lparr>buf := buf (heap (sink w) ! a) @ [fst (ConvertBytesToMessage p)]\<rparr>
            else heap (sink w) ! a)"
proof -
  obtain m e where cb: "ConvertBytesToMessage p = (m, e)" by (cases "ConvertBytesToMessage p")
  have conv: "converter (sink w) p = (m, e)" using wf_conv [OF wf] cb by simp
  show "subs w' = subs w" using st by (auto split: outcome.splits)
  have "listeners (sink w') = listeners (sink w) \<and> converter (sink w') = converter (sink w)
     \<and> length (heap (sink w')) = length (heap (sink w))
     \<and> (\<forall>a < length (heap (sink w)). heap (sink w') ! a =
           (if snd (ConvertBytesToMessage p) = None \<and> a \<in> snd ` set (listeners (sink w))
            then (heap (sink w) ! a)\<lparr>buf := buf (heap (sink w) ! a) @ [fst (ConvertBytesToMessage p)]\<rparr>
            else heap (sink w) ! a))"
  proof (cases e)
    case (Some err)
    with conv have "Write p (sink w) = Returns ((0, Some (ConvertFailed err)), sink w)"
      by (simp add: Write_def)
    with st have "w' = w" by simp
    with Some cb show ?thesis by simp
  next
    case None
    from st obtain r o'' where wr: "Write p (sink w) = Returns (r, o'')" and w': "w' = w\<lparr>sink := o''\<rparr>"
      by (auto split: outcome.splits)
    from wr conv None obtain h where
      sl: "send_loop m (listeners (sink w)) (heap (sink w)) = Returns h"
      and o'': "o'' = (sink w)\<lparr>heap := h\<rparr>"
      by (auto simp: Write_def send_def split: outcome.splits)
    from send_loop_effect [OF sl wf_vals [OF wf]] w' o'' None cb
    show ?thesis by simp
  qed
  then show "listeners (sink w') = listeners (sink w)"
    and "converter (sink w') = converter (sink w)"
    and "length (heap (sink w')) = length (heap (sink w))"
    and "\<forall>a < length (heap (sink w)). heap (sink w') ! a =
           (if snd (ConvertBytesToMessage p) = None \<and> a \<in> snd ` set (listeners (sink w))
            then (heap (sink w) ! a)\<lparr>buf := buf (heap (sink w) ! a) @ [fst (ConvertBytesToMessage p)]\<rparr>
            else heap (sink w) ! a)"
    by blast+
qed

lemma Close_step_effect:
  assumes wf: "wf_world w"
  shows "\<exists>w'. step Op_Close w = Returns w' \<and> Close (sink w) = Returns (None, sink w')
     \<and> subs w' = subs w
     \<and> listeners (sink w') = []
     \<and> converter (sink w') = converter (sink w)
     \<and> length (heap (sink w')) = length (heap (sink w))
     \<and> (\<forall>a < length (heap (sink w)). heap (sink w') ! a =
           (if a \<in> snd ` set (listeners (sink w)) then (heap (sink w) ! a)\<lparr>closed := True\<rparr>
            else heap (sink w) ! a))"
proof -
  from Close_effect [OF wf_inv [OF wf] wf_vals [OF wf]] obtain o'' where
    c: "Close (sink w) = Returns (None, o'')"
    and rest: "converter o'' = converter (sink w)" "length (heap o'') = length (heap (sink w))"
      "\<forall>a < length (heap (sink w)). heap o'' ! a =
           (if a \<in> snd ` set (listeners (sink w)) then (heap (sink w) ! a)\<lparr>closed := True\<rparr>
            else heap (sink w) ! a)"
      "listeners o'' = []"
    by blast
  let ?w' = "w\<lparr>sink := o''\<rparr>"
  have "step Op_Close w = Returns ?w'" using c by simp
  with c rest show ?thesis by (intro exI [of _ ?w']) simp
qed

lemma Listen_step:
  "step (Op_Listen id') w =
     Returns (w\<lparr>sink := (sink w)\<lparr>heap := heap (sink w) @ [make_chan 1000],
                    listeners := AList.update id' (length (heap (sink w))) (listeners (sink w))\<rparr>,
               subs := subs w @ [\<lparr>recv_ch = length (heap (sink w)),
                   cancel = \<lparr>cf_ch = length (heap (sink w)), cf_id = id'\<rparr>, inbox = []\<rparr>]\<rparr>)"
  by (simp add: Listen_def Let_def)

lemma Cancel_step:
  assumes wf: "wf_world w" and k: "k < length (subs w)"
  shows "step (Op_Cancel k) w =
     (if closed (heap (sink w) ! k) then Panics
      else Returns (w\<lparr>sink := (sink w)\<lparr>
              heap := (heap (sink w))[k := (heap (sink w) ! k)\<lparr>closed := True\<rparr>],
              listeners := AList.delete (cf_id (cancel (subs w ! k))) (listeners (sink w))\<rparr>\<rparr>))"
proof -
  have ch: "cf_ch (cancel (subs w ! k)) = k" using wf_sub [OF wf k] by simp
  have kh: "k < length (heap (sink w))" using k wf_len [OF wf] by simp
  show ?thesis using k ch kh
    by (simp add: call_cancel_def on_chan_def chan_close_def)
qed

lemma Recv_step:
  assumes wf: "wf_world w" and k: "k < length (subs w)"
  shows "step (Op_Recv k) w =
     (case buf (heap (sink w) ! k) of
        m # ms \<Rightarrow> Returns (w\<lparr>sink := (sink w)\<lparr>heap := (heap (sink w))[k := (heap (sink w) ! k)\<lparr>buf := ms\<rparr>]\<rparr>,
                            subs := (subs w)[k := (subs w ! k)\<lparr>inbox := inbox (subs w ! k) @ [m]\<rparr>]\<rparr>)
      | [] \<Rightarrow> if closed (heap (sink w) ! k) then Returns w else Blocks)"
proof -
  have ch: "recv_ch (subs w ! k) = k" using wf_sub [OF wf k] by simp
  have kh: "k < length (heap (sink w))" using k wf_len [OF wf] by simp
  show ?thesis using k ch kh
    by (cases "buf (heap (sink w) ! k)") (simp_all add: chan_recv_def)
qed


lemma wf_step_Write:
  assumes wf: "wf_world w" and st: "step (Op_Write p) w = Returns w'"
  shows "wf_world w'"
proof (rule wf_worldI)
  note eff = Write_step_effect [OF wf st]
  have closed_same: "\<And>a. a < length (heap (sink w)) \<Longrightarrow>
      closed (heap (sink w') ! a) = closed (heap (sink w) ! a)
      \<and> cap (heap (sink w') ! a) = cap (heap (sink w) ! a)"
    using eff(5) by simp
  show "registry_inv (sink w')"
  proof (rule registry_invI)
    fix k ch assume "(k, ch) \<in> set (listeners (sink w'))"
    then have "(k, ch) \<in> set (listeners (sink w))" using eff(2) by simp
    from inv_entry [OF wf_inv [OF wf] this] closed_same [of ch] eff(4)
    show "ch < length (heap (sink w')) \<and> \<not> closed (heap (sink w') ! ch)" by simp
  qed
  show "distinct (map fst (listeners (sink w')))" using wf_keys [OF wf] eff(2) by simp
  show "distinct (map snd (listeners (sink w')))" using wf_vals [OF wf] eff(2) by simp
  show "length (subs w') = length (heap (sink w'))" using wf_len [OF wf] eff(1) eff(4) by simp
  show "\<And>k. k < length (subs w') \<Longrightarrow>
      recv_ch (subs w' ! k) = k \<and> cf_ch (cancel (subs w' ! k)) = k"
    using wf_sub [OF wf] eff(1) by simp
  show "\<And>id' ch. (id', ch) \<in> set (listeners (sink w')) \<Longrightarrow> cf_id (cancel (subs w' ! ch)) = id'"
    using wf_entry [OF wf] eff(1) eff(2) by simp
  show "converter (sink w') = ConvertBytesToMessage" using wf_conv [OF wf] eff(3) by simp
  show "\<And>c. c \<in> set (heap (sink w')) \<Longrightarrow> cap c = 1000"
  proof -
    fix c assume "c \<in> set (heap (sink w'))"
    then obtain a where a: "a < length (heap (sink w'))" and c: "c = heap (sink w') ! a"
      by (auto simp: in_set_conv_nth)
    from a eff(4) have a': "a < length (heap (sink w))" by simp
    then have "cap (heap (sink w) ! a) = 1000" using wf_cap [OF wf] by simp
    with closed_same [OF a'] c show "cap c = 1000" by simp
  qed
qed

lemma wf_step_Close:
  assumes wf: "wf_world w" and st: "step Op_Close w = Returns w'"
  shows "wf_world w'"
proof (rule wf_worldI)
  from Close_step_effect [OF wf] st
  have s: "subs w' = subs w" and l: "listeners (sink w') = []"
    and c: "converter (sink w') = converter (sink w)"
    and len: "length (heap (sink w')) = length (heap (sink w))"
    and eff: "\<forall>a < length (heap (sink w)). heap (sink w') ! a =
           (if a \<in> snd ` set (listeners (sink w)) then (heap (sink w) ! a)\<lparr>closed := True\<rparr>
            else heap (sink w) ! a)"
    by auto
  show "registry_inv (sink w')" using l by (simp add: registry_inv_def)
  show "distinct (map fst (listeners (sink w')))" using l by simp
  show "distinct (map snd (listeners (sink w')))" using l by simp
  show "length (subs w') = length (heap (sink w'))" using wf_len [OF wf] s len by simp
  show "\<And>k. k < length (subs w') \<Longrightarrow>
      recv_ch (subs w' ! k) = k \<and> cf_ch (cancel (subs w' ! k)) = k"
    using wf_sub [OF wf] s by simp
  show "\<And>id' ch. (id', ch) \<in> set (listeners (sink w')) \<Longrightarrow> cf_id (cancel (subs w' ! ch)) = id'"
    using l by simp
  show "converter (sink w') = ConvertBytesToMessage" using wf_conv [OF wf] c by simp
  show "\<And>c. c \<in> set (heap (sink w')) \<Longrightarrow> cap c = 1000"
  proof -
    fix c assume "c \<in> set (heap (sink w'))"
    then obtain a where a: "a < length (heap (sink w'))" and c: "c = heap (sink w') ! a"
      by (auto simp: in_set_conv_nth)
    from a len have a': "a < length (heap (sink w))" by simp
    then have "cap (heap (sink w) ! a) = 1000" using wf_cap [OF wf] by simp
    with eff a' c show "cap c = 1000" by simp
  qed
qed

lemma wf_step_Listen:
  assumes wf: "wf_world w" and st: "step (Op_Listen id') w = Returns w'"
  shows "wf_world w'"
proof (rule wf_worldI)
  let ?n = "length (heap (sink w))"
  from st have w': "w' = w\<lparr>sink := (sink w)\<lparr>heap := heap (sink w) @ [make_chan 1000],
                    listeners := AList.update id' ?n (listeners (sink w))\<rparr>,
               subs := subs w @ [\<lparr>recv_ch = ?n,
                   cancel = \<lparr>cf_ch = ?n, cf_id = id'\<rparr>, inbox = []\<rparr>]\<rparr>"
    unfolding Listen_step by simp
  have ls: "listeners (sink w') = AList.update id' ?n (listeners (sink w))"
    and hp: "heap (sink w') = heap (sink w) @ [make_chan 1000]"
    and sb: "subs w' = subs w @ [\<lparr>recv_ch = ?n, cancel = \<lparr>cf_ch = ?n, cf_id = id'\<rparr>, inbox = []\<rparr>]"
    and cv: "converter (sink w') = converter (sink w)"
    using w' by simp_all
  have old: "\<And>k ch. (k, ch) \<in> set (listeners (sink w)) \<Longrightarrow> ch < ?n \<and> \<not> closed (heap (sink w) ! ch)"
    using inv_entry [OF wf_inv [OF wf]] by simp
  have mem: "\<And>k ch. (k, ch) \<in> set (listeners (sink w')) \<Longrightarrow>
      (k, ch) = (id', ?n) \<or> (k, ch) \<in> set (listeners (sink w))"
    using set_update_subset [of id' ?n "listeners (sink w)"] ls by auto
  have fresh: "?n \<notin> snd ` set (listeners (sink w))" using old by force
  show "registry_inv (sink w')"
  proof (rule registry_invI)
    fix k ch assume "(k, ch) \<in> set (listeners (sink w'))"
    from mem [OF this] show "ch < length (heap (sink w')) \<and> \<not> closed (heap (sink w') ! ch)"
    proof
      assume "(k, ch) = (id', ?n)"
      then show ?thesis using hp by (simp add: make_chan_def)
    next
      assume "(k, ch) \<in> set (listeners (sink w))"
      from old [OF this] show ?thesis using hp by (simp add: nth_append)
    qed
  qed
  show "distinct (map fst (listeners (sink w')))"
    using wf_keys [OF wf] ls by (simp add: AList.distinct_update)
  show "distinct (map snd (listeners (sink w')))"
    using distinct_snd_update [OF wf_vals [OF wf] fresh] ls by simp
  show "length (subs w') = length (heap (sink w'))" using wf_len [OF wf] sb hp by simp
  show "\<And>k. k < length (subs w') \<Longrightarrow>
      recv_ch (subs w' ! k) = k \<and> cf_ch (cancel (subs w' ! k)) = k"
  proof -
    fix k assume "k < length (subs w')"
    then have "k < length (subs w) \<or> k = length (subs w)" using sb by auto
    then show "recv_ch (subs w' ! k) = k \<and> cf_ch (cancel (subs w' ! k)) = k"
      using wf_sub [OF wf, of k] wf_len [OF wf] sb by (auto simp: nth_append)
  qed
  show "\<And>k ch. (k, ch) \<in> set (listeners (sink w')) \<Longrightarrow> cf_id (cancel (subs w' ! ch)) = k"
  proof -
    fix k ch assume "(k, ch) \<in> set (listeners (sink w'))"
    from mem [OF this] show "cf_id (cancel (subs w' ! ch)) = k"
    proof
      assume "(k, ch) = (id', ?n)"
      then show ?thesis using sb wf_len [OF wf, symmetric] by simp
    next
      assume e: "(k, ch) \<in> set (listeners (sink w))"
      from old [OF e] have "ch < length (subs w)" using wf_len [OF wf] by simp
      then show ?thesis using wf_entry [OF wf e] sb by (simp add: nth_append)
    qed
  qed
  show "converter (sink w') = ConvertBytesToMessage" using wf_conv [OF wf] cv by simp
  show "\<And>c. c \<in> set (heap (sink w')) \<Longrightarrow> cap c = 1000"
    using wf_cap [OF wf] hp by (auto simp: make_chan_def)
qed

lemma wf_step_Cancel:
  assumes wf: "wf_world w" and st: "step (Op_Cancel k) w = Returns w'"
  shows "wf_world w'"
proof (cases "k < length (subs w)")
  case False
  with st show ?thesis using wf by simp
next
  case True
  let ?h = "heap (sink w)"
  let ?id = "cf_id (cancel (subs w ! k))"
  from st Cancel_step [OF wf True]
  have op: "\<not> closed (?h ! k)"
    and w': "w' = w\<lparr>sink := (sink w)\<lparr>heap := ?h[k := (?h ! k)\<lparr>closed := True\<rparr>],
              listeners := AList.delete ?id (listeners (sink w))\<rparr>\<rparr>"
    by (auto split: if_splits)
  have ls: "listeners (sink w') = AList.delete ?id (listeners (sink w))"
    and hp: "heap (sink w') = ?h[k := (?h ! k)\<lparr>closed := True\<rparr>]"
    and sb: "subs w' = subs w"
    and cv: "converter (sink w') = converter (sink w)"
    using w' by simp_all
  show ?thesis
  proof (rule wf_worldI)
    show "registry_inv (sink w')"
    proof (rule registry_invI)
      fix i ch assume "(i, ch) \<in> set (listeners (sink w'))"
      then have e: "(i, ch) \<in> set (listeners (sink w))" and ne: "i \<noteq> ?id"
        using ls by (auto simp: set_delete)
      from wf_entry [OF wf e] ne have "ch \<noteq> k" by auto
      with inv_entry [OF wf_inv [OF wf] e] hp
      show "ch < length (heap (sink w')) \<and> \<not> closed (heap (sink w') ! ch)" by simp
    qed
    show "distinct (map fst (listeners (sink w')))"
      using wf_keys [OF wf] ls by (simp add: AList.distinct_delete)
    show "distinct (map snd (listeners (sink w')))"
      using distinct_snd_delete [OF wf_vals [OF wf]] ls by simp
    show "length (subs w') = length (heap (sink w'))" using wf_len [OF wf] sb hp by simp
    show "\<And>j. j < length (subs w') \<Longrightarrow>
        recv_ch (subs w' ! j) = j \<and> cf_ch (cancel (subs w' ! j)) = j"
      using wf_sub [OF wf] sb by simp
    show "\<And>i ch. (i, ch) \<in> set (listeners (sink w')) \<Longrightarrow> cf_id (cancel (subs w' ! ch)) = i"
      using wf_entry [OF wf] sb ls by (auto simp: set_delete)
    show "converter (sink w') = ConvertBytesToMessage" using wf_conv [OF wf] cv by simp
    show "\<And>c. c \<in> set (heap (sink w')) \<Longrightarrow> cap c = 1000"
    proof -
      fix c assume "c \<in> set (heap (sink w'))"
      then have "c \<in> insert ((?h ! k)\<lparr>closed := True\<rparr>) (set ?h)"
        using hp set_update_subset_insert [of ?h k] by auto
      moreover have "cap (?h ! k) = 1000" using wf_cap [OF wf] True wf_len [OF wf] by simp
      ultimately show "cap c = 1000" using wf_cap [OF wf] by auto
    qed
  qed
qed

lemma wf_step_Recv:
  assumes wf: "wf_world w" and st: "step (Op_Recv k) w = Returns w'"
  shows "wf_world w'"
proof (cases "k < length (subs w)")
  case False
  with st show ?thesis using wf by simp
next
  case True
  let ?h = "heap (sink w)"
  show ?thesis
  proof (cases "buf (?h ! k)")
    case Nil
    with st Recv_step [OF wf True] have "w' = w" by (auto split: if_splits)
    with wf show ?thesis by simp
  next
    case (Cons m ms)
    with st Recv_step [OF wf True]
    have w': "w' = w\<lparr>sink := (sink w)\<lparr>heap := ?h[k := (?h ! k)\<lparr>buf := ms\<rparr>]\<rparr>,
                     subs := (subs w)[k := (subs w ! k)\<lparr>inbox := inbox (subs w ! k) @ [m]\<rparr>]\<rparr>"
      by simp
    have ls: "listeners (sink w') = listeners (sink w)"
      and hp: "heap (sink w') = ?h[k := (?h ! k)\<lparr>buf := ms\<rparr>]"
      and sb: "subs w' = (subs w)[k := (subs w ! k)\<lparr>inbox := inbox (subs w ! k) @ [m]\<rparr>]"
      and cv: "converter (sink w') = converter (sink w)"
      using w' by simp_all
    have sub_same: "\<And>j. j < length (subs w) \<Longrightarrow>
        recv_ch (subs w' ! j) = recv_ch (subs w ! j) \<and> cancel (subs w' ! j) = cancel (subs w ! j)"
      using sb True by (simp add: nth_list_update)
    show ?thesis
    proof (rule wf_worldI)
      show "registry_inv (sink w')"
      proof (rule registry_invI)
        fix i ch assume "(i, ch) \<in> set (listeners (sink w'))"
        then have e: "(i, ch) \<in> set (listeners (sink w))" using ls by simp
        from inv_entry [OF wf_inv [OF wf] e] hp
        show "ch < length (heap (sink w')) \<and> \<not> closed (heap (sink w') ! ch)"
          by (cases "ch = k") simp_all
      qed
      show "distinct (map fst (listeners (sink w')))" using wf_keys [OF wf] ls by simp
      show "distinct (map snd (listeners (sink w')))" using wf_vals [OF wf] ls by simp
      show "length (subs w') = length (heap (sink w'))" using wf_len [OF wf] sb hp by simp
      show "\<And>j. j < length (subs w') \<Longrightarrow>
          recv_ch (subs w' ! j) = j \<and> cf_ch (cancel (subs w' ! j)) = j"
        using wf_sub [OF wf] sub_same sb by simp
      show "\<And>i ch. (i, ch) \<in> set (listeners (sink w')) \<Longrightarrow> cf_id (cancel (subs w' ! ch)) = i"
      proof -
        fix i ch assume "(i, ch) \<in> set (listeners (sink w'))"
        then have e: "(i, ch) \<in> set (listeners (sink w))" using ls by simp
        from inv_entry [OF wf_inv [OF wf] e] have "ch < length (subs w)"
          using wf_len [OF wf] by simp
        with wf_entry [OF wf e] sub_same show "cf_id (cancel (subs w' ! ch)) = i" by simp
      qed
      show "converter (sink w') = ConvertBytesToMessage" using wf_conv [OF wf] cv by simp
      show "\<And>c. c \<in> set (heap (sink w')) \<Longrightarrow> cap c = 1000"
      proof -
        fix c assume "c \<in> set (heap (sink w'))"
        then have "c \<in> insert ((?h ! k)\<lparr>buf := ms\<rparr>) (set ?h)"
          using hp set_update_subset_insert [of ?h k] by auto
        moreover have "cap (?h ! k) = 1000" using wf_cap [OF wf] True wf_len [OF wf] by simp
        ultimately show "cap c = 1000" using wf_cap [OF wf] by auto
      qed
    qed
  qed
qed

lemma wf_step: "wf_world w \<Longrightarrow> step x w = Returns w' \<Longrightarrow> wf_world w'"
proof (cases x)
  case (Op_Write p)
  then show "wf_world w \<Longrightarrow> step x w = Returns w' \<Longrightarrow> wf_world w'" using wf_step_Write by simp
next
  case Op_Sync
  then show "wf_world w \<Longrightarrow> step x w = Returns w' \<Longrightarrow> wf_world w'" by simp
next
  case Op_Close
  then show "wf_world w \<Longrightarrow> step x w = Returns w' \<Longrightarrow> wf_world w'" using wf_step_Close by simp
next
  case (Op_Listen i)
  then show "wf_world w \<Longrightarrow> step x w = Returns w' \<Longrightarrow> wf_world w'"
    using wf_step_Listen by simp
next
  case (Op_Cancel k)
  then show "wf_world w \<Longrightarrow> step x w = Returns w' \<Longrightarrow> wf_world w'"
    using wf_step_Cancel by simp
next
  case (Op_Recv k)
  then show "wf_world w \<Longrightarrow> step x w = Returns w' \<Longrightarrow> wf_world w'"
    using wf_step_Recv by simp
qed

lemma exec_Cons_Returns:
  "exec (x # xs) w = Returns w' \<longleftrightarrow> (\<exists>w1. step x w = Returns w1 \<and> exec xs w1 = Returns w')"
  by (cases "step x w") simp_all

lemma wf_exec: "wf_world w \<Longrightarrow> exec xs w = Returns w' \<Longrightarrow> wf_world w'"
proof (induction xs arbitrary: w)
  case Nil
  then show ?case by simp
next
  case (Cons x xs)
  from Cons.prems(2) obtain w1 where s: "step x w = Returns w1" and e: "exec xs w1 = Returns w'"
    unfolding exec_Cons_Returns by blast
  from Cons.IH [OF wf_step [OF Cons.prems(1) s] e] show ?case .
qed

section \<open>What one subscription sees of a run\<close>

lemma registered_iff:
  assumes wf: "wf_world w" and k: "k < length (subs w)"
  shows "registered k w \<longleftrightarrow> k \<in> snd ` set (listeners (sink w))"
proof
  assume "registered k w"
  then show "k \<in> snd ` set (listeners (sink w))"
    using wf_sub [OF wf k] by (force simp: registered_def)
next
  assume "k \<in> snd ` set (listeners (sink w))"
  then obtain i where e: "(i, k) \<in> set (listeners (sink w))" by auto
  from wf_entry [OF wf e] e show "registered k w"
    using wf_sub [OF wf k] by (simp add: registered_def)
qed

lemma ingested_single:
  "ingested [Op_Write p] =
     (if snd (ConvertBytesToMessage p) = None then [fst (ConvertBytesToMessage p)] else [])"
  by (cases "ConvertBytesToMessage p") (auto split: option.splits)

lemma ingested_Cons: "ingested (x # xs) = ingested [x] @ ingested xs"
  by (cases x) (auto split: prod.splits option.splits)

lemma ingested_append: "ingested (xs @ ys) = ingested xs @ ingested ys"
proof (induction xs)
  case Nil
  then show ?case by simp
next
  case (Cons x xs)
  have "ingested ((x # xs) @ ys) = ingested [x] @ ingested (xs @ ys)"
    using ingested_Cons [of x "xs @ ys"] by simp
  also have "\<dots> = ingested [x] @ ingested xs @ ingested ys" using Cons by simp
  also have "\<dots> = ingested (x # xs) @ ingested ys" using ingested_Cons [of x xs] by simp
  finally show ?case .
qed

lemma step_frame_Write:
  assumes wf: "wf_world w" and k: "k < length (subs w)" and st: "step (Op_Write p) w = Returns w'"
  shows "subs w' ! k = subs w ! k \<and> length (subs w') = length (subs w)
    \<and> closed (heap (sink w') ! k) = closed (heap (sink w) ! k)
    \<and> placed k w' = placed k w @ (if registered k w then ingested [Op_Write p] else [])
    \<and> (registered k w' \<longrightarrow> registered k w)"
proof -
  note eff = Write_step_effect [OF wf st]
  have kh: "k < length (heap (sink w))" using k wf_len [OF wf] by simp
  have rk: "recv_ch (subs w ! k) = k" using wf_sub [OF wf k] by simp
  have hk: "heap (sink w') ! k =
      (if snd (ConvertBytesToMessage p) = None \<and> k \<in> snd ` set (listeners (sink w))
       then (heap (sink w) ! k)\<lparr>buf := buf (heap (sink w) ! k) @ [fst (ConvertBytesToMessage p)]\<rparr>
       else heap (sink w) ! k)"
    using eff(5) kh by blast
  have reg: "registered k w \<longleftrightarrow> k \<in> snd ` set (listeners (sink w))"
    using registered_iff [OF wf k] .
  have "placed k w' = placed k w @ (if registered k w then ingested [Op_Write p] else [])"
    unfolding ingested_single using hk reg rk eff(1) by (simp add: placed_def)
  moreover have "closed (heap (sink w') ! k) = closed (heap (sink w) ! k)" using hk by simp
  moreover have "registered k w' \<longrightarrow> registered k w"
    using eff(1) eff(2) by (simp add: registered_def)
  ultimately show ?thesis using eff(1) by simp
qed

lemma step_frame_Close:
  assumes wf: "wf_world w" and k: "k < length (subs w)" and st: "step Op_Close w = Returns w'"
  shows "subs w' ! k = subs w ! k \<and> length (subs w') = length (subs w)
    \<and> (closed (heap (sink w) ! k) \<longrightarrow> closed (heap (sink w') ! k))
    \<and> placed k w' = placed k w
    \<and> \<not> registered k w'"
proof -
  from Close_step_effect [OF wf] st
  have s: "subs w' = subs w" and l: "listeners (sink w') = []"
    and eff: "\<forall>a < length (heap (sink w)). heap (sink w') ! a =
           (if a \<in> snd ` set (listeners (sink w)) then (heap (sink w) ! a)\<lparr>closed := True\<rparr>
            else heap (sink w) ! a)"
    by auto
  have kh: "k < length (heap (sink w))" using k wf_len [OF wf] by simp
  have rk: "recv_ch (subs w ! k) = k" using wf_sub [OF wf k] by simp
  from eff kh have hk: "heap (sink w') ! k =
           (if k \<in> snd ` set (listeners (sink w)) then (heap (sink w) ! k)\<lparr>closed := True\<rparr>
            else heap (sink w) ! k)" by blast
  have "placed k w' = placed k w" using hk s rk by (simp add: placed_def)
  moreover have "closed (heap (sink w) ! k) \<longrightarrow> closed (heap (sink w') ! k)" using hk by simp
  moreover have "\<not> registered k w'" using l by (simp add: registered_def)
  ultimately show ?thesis using s by simp
qed

lemma step_frame_Listen:
  assumes wf: "wf_world w" and k: "k < length (subs w)" and st: "step (Op_Listen i) w = Returns w'"
  shows "subs w' ! k = subs w ! k \<and> length (subs w') = Suc (length (subs w))
    \<and> closed (heap (sink w') ! k) = closed (heap (sink w) ! k)
    \<and> placed k w' = placed k w
    \<and> (registered k w' \<longrightarrow> registered k w)"
proof -
  let ?n = "length (heap (sink w))"
  from st have w': "w' = w\<lparr>sink := (sink w)\<lparr>heap := heap (sink w) @ [make_chan 1000],
                    listeners := AList.update i ?n (listeners (sink w))\<rparr>,
               subs := subs w @ [\<lparr>recv_ch = ?n,
                   cancel = \<lparr>cf_ch = ?n, cf_id = i\<rparr>, inbox = []\<rparr>]\<rparr>"
    unfolding Listen_step by simp
  have kh: "k < ?n" using k wf_len [OF wf] by simp
  have rk: "recv_ch (subs w ! k) = k" using wf_sub [OF wf k] by simp
  have sk: "subs w' ! k = subs w ! k" using w' k by (simp add: nth_append)
  have hk: "heap (sink w') ! k = heap (sink w) ! k" using w' kh by (simp add: nth_append)
  have "placed k w' = placed k w" using sk hk rk by (simp add: placed_def)
  moreover have "registered k w' \<longrightarrow> registered k w"
  proof
    assume "registered k w'"
    then have "(cf_id (cancel (subs w ! k)), k) \<in> set (AList.update i ?n (listeners (sink w)))"
      using sk rk w' by (simp add: registered_def)
    with set_update_subset [of i ?n "listeners (sink w)"] kh
    have "(cf_id (cancel (subs w ! k)), k) \<in> set (listeners (sink w))" by auto
    then show "registered k w" using rk by (simp add: registered_def)
  qed
  ultimately show ?thesis using sk hk w' by simp
qed

lemma step_frame_Cancel:
  assumes wf: "wf_world w" and k: "k < length (subs w)" and st: "step (Op_Cancel j) w = Returns w'"
  shows "subs w' ! k = subs w ! k \<and> length (subs w') = length (subs w)
    \<and> (closed (heap (sink w) ! k) \<longrightarrow> closed (heap (sink w') ! k))
    \<and> placed k w' = placed k w
    \<and> (registered k w' \<longrightarrow> registered k w)"
proof (cases "j < length (subs w)")
  case False
  with st show ?thesis by simp
next
  case True
  let ?h = "heap (sink w)"
  from st Cancel_step [OF wf True]
  have w': "w' = w\<lparr>sink := (sink w)\<lparr>heap := ?h[j := (?h ! j)\<lparr>closed := True\<rparr>],
              listeners := AList.delete (cf_id (cancel (subs w ! j))) (listeners (sink w))\<rparr>\<rparr>"
    by (auto split: if_splits)
  have jh: "j < length ?h" using True wf_len [OF wf] by simp
  have rk: "recv_ch (subs w ! k) = k" using wf_sub [OF wf k] by simp
  have s: "subs w' = subs w" using w' by simp
  have hk: "buf (heap (sink w') ! k) = buf (?h ! k)"
    "closed (?h ! k) \<longrightarrow> closed (heap (sink w') ! k)"
    using w' jh by (cases "k = j"; simp)+
  have "placed k w' = placed k w" using hk(1) s rk by (simp add: placed_def)
  moreover have "registered k w' \<longrightarrow> registered k w"
    using w' by (auto simp: registered_def set_delete)
  ultimately show ?thesis using s hk(2) by simp
qed

lemma step_frame_Recv:
  assumes wf: "wf_world w" and k: "k < length (subs w)" and st: "step (Op_Recv j) w = Returns w'"
  shows "cancel (subs w' ! k) = cancel (subs w ! k) \<and> recv_ch (subs w' ! k) = recv_ch (subs w ! k)
    \<and> length (subs w') = length (subs w)
    \<and> closed (heap (sink w') ! k) = closed (heap (sink w) ! k)
    \<and> placed k w' = placed k w
    \<and> (registered k w' \<longrightarrow> registered k w)"
proof (cases "j < length (subs w)")
  case False
  with st show ?thesis by simp
next
  case True
  let ?h = "heap (sink w)"
  have jh: "j < length ?h" using True wf_len [OF wf] by simp
  have rk: "recv_ch (subs w ! k) = k" using wf_sub [OF wf k] by simp
  show ?thesis
  proof (cases "buf (?h ! j)")
    case Nil
    with st Recv_step [OF wf True] have "w' = w" by (auto split: if_splits)
    then show ?thesis by simp
  next
    case (Cons m ms)
    with st Recv_step [OF wf True]
    have w': "w' = w\<lparr>sink := (sink w)\<lparr>heap := ?h[j := (?h ! j)\<lparr>buf := ms\<rparr>]\<rparr>,
                     subs := (subs w)[j := (subs w ! j)\<lparr>inbox := inbox (subs w ! j) @ [m]\<rparr>]\<rparr>"
      by simp
    show ?thesis
    proof (cases "k = j")
      case True
      with w' jh k Cons rk show ?thesis by (simp add: placed_def registered_def)
    next
      case False
      with w' jh k rk show ?thesis by (simp add: placed_def registered_def)
    qed
  qed
qed

lemma step_frame:
  assumes wf: "wf_world w" and k: "k < length (subs w)" and st: "step x w = Returns w'"
  shows "k < length (subs w')"
    and "cancel (subs w' ! k) = cancel (subs w ! k)"
    and "recv_ch (subs w' ! k) = recv_ch (subs w ! k)"
    and "closed (heap (sink w) ! k) \<Longrightarrow> closed (heap (sink w') ! k)"
    and "placed k w' = placed k w @ (if registered k w then ingested [x] else [])"
    and "registered k w' \<Longrightarrow> registered k w"
proof -
  have "k < length (subs w') \<and> cancel (subs w' ! k) = cancel (subs w ! k)
    \<and> recv_ch (subs w' ! k) = recv_ch (subs w ! k)
    \<and> (closed (heap (sink w) ! k) \<longrightarrow> closed (heap (sink w') ! k))
    \<and> placed k w' = placed k w @ (if registered k w then ingested [x] else [])
    \<and> (registered k w' \<longrightarrow> registered k w)"
  proof (cases x)
    case (Op_Write p)
    with step_frame_Write [OF wf k, of p w'] st k show ?thesis by simp
  next
    case Op_Sync
    with st show ?thesis using k by simp
  next
    case Op_Close
    with step_frame_Close [OF wf k, of w'] st k show ?thesis by simp
  next
    case (Op_Listen i)
    with step_frame_Listen [OF wf k, of i w'] st k show ?thesis by simp
  next
    case (Op_Cancel j)
    with step_frame_Cancel [OF wf k, of j w'] st k show ?thesis by simp
  next
    case (Op_Recv j)
    with step_frame_Recv [OF wf k, of j w'] st k show ?thesis by simp
  qed
  then show "k < length (subs w')"
    and "cancel (subs w' ! k) = cancel (subs w ! k)"
    and "recv_ch (subs w' ! k) = recv_ch (subs w ! k)"
    and "closed (heap (sink w) ! k) \<Longrightarrow> closed (heap (sink w') ! k)"
    and "placed k w' = placed k w @ (if registered k w then ingested [x] else [])"
    and "registered k w' \<Longrightarrow> registered k w"
    by blast+
qed

lemma exec_frame:
  assumes "wf_world w" and "k < length (subs w)" and "exec xs w = Returns w'"
  shows "k < length (subs w') \<and> cancel (subs w' ! k) = cancel (subs w ! k)
    \<and> recv_ch (subs w' ! k) = recv_ch (subs w ! k)
    \<and> (closed (heap (sink w) ! k) \<longrightarrow> closed (heap (sink w') ! k))
    \<and> (registered k w' \<longrightarrow> registered k w)"
  using assms
proof (induction xs arbitrary: w)
  case Nil
  then show ?case by simp
next
  case (Cons x xs)
  from Cons.prems(3) obtain w1 where s: "step x w = Returns w1" and e: "exec xs w1 = Returns w'"
    unfolding exec_Cons_Returns by blast
  note f = step_frame [OF Cons.prems(1) Cons.prems(2) s]
  from Cons.IH [OF wf_step [OF Cons.prems(1) s] f(1) e] f(2) f(3) f(4) f(6)
  show ?case by auto
qed

lemma unregistered_placed:
  assumes "wf_world w" and "k < length (subs w)" and "\<not> registered k w"
    and "exec xs w = Returns w'"
  shows "placed k w' = placed k w"
  using assms
proof (induction xs arbitrary: w)
  case Nil
  then show ?case by simp
next
  case (Cons x xs)
  from Cons.prems(4) obtain w1 where s: "step x w = Returns w1" and e: "exec xs w1 = Returns w'"
    unfolding exec_Cons_Returns by blast
  note f = step_frame [OF Cons.prems(1) Cons.prems(2) s]
  from f(6) Cons.prems(3) have nr: "\<not> registered k w1" by blast
  from Cons.IH [OF wf_step [OF Cons.prems(1) s] f(1) nr e] f(5) Cons.prems(3)
  show ?case by simp
qed

lemma placed_exec:
  assumes "wf_world w" and "k < length (subs w)" and "exec xs w = Returns w'"
  shows "\<exists>ys. prefix ys xs \<and> placed k w' = placed k w @ ingested ys
           \<and> (registered k w' \<longrightarrow> ys = xs)"
  using assms
proof (induction xs arbitrary: w)
  case Nil
  then show ?case by simp
next
  case (Cons x xs)
  from Cons.prems(3) obtain w1 where s: "step x w = Returns w1" and e: "exec xs w1 = Returns w'"
    unfolding exec_Cons_Returns by blast
  note f = step_frame [OF Cons.prems(1) Cons.prems(2) s]
  note wf1 = wf_step [OF Cons.prems(1) s]
  show ?case
  proof (cases "registered k w")
    case True
    from Cons.IH [OF wf1 f(1) e] obtain ys where
      p: "prefix ys xs" and pl: "placed k w' = placed k w1 @ ingested ys"
      and r: "registered k w' \<longrightarrow> ys = xs" by blast
    have "placed k w' = placed k w @ ingested (x # ys)"
      using pl f(5) True ingested_Cons [of x ys] by simp
    with p r show ?thesis by (intro exI [of _ "x # ys"]) simp
  next
    case False
    from unregistered_placed [OF Cons.prems(1) Cons.prems(2) False Cons.prems(3)]
    have pl: "placed k w' = placed k w" .
    from exec_frame [OF Cons.prems(1) Cons.prems(2) Cons.prems(3)] False
    have "\<not> registered k w'" by blast
    with pl show ?thesis by (intro exI [of _ "[]"]) simp
  qed
qed

section \<open>The sink: writing, listening, cancelling, closing\<close>

lemma CBM_example: "ConvertBytesToMessage example_record = (example_message, None)"
  unfolding example_record_def example_message_def by code_simp

lemma CBM_example_payload: "ConvertBytesToMessage payload_record = (payload_message, None)"
  unfolding payload_record_def payload_message_def example_record_def example_message_def
  by code_simp

lemma CBM_garbage: "ConvertBytesToMessage ''garbage'' = (Message_zero, Some MalformedRecord)"
  by code_simp

lemmas run_simps =
  NewWorld_def NewOctantSink_def Listen_def Write_def send_def Close_def call_cancel_def
  on_chan_def chan_send_def chan_close_def chan_recv_def make_chan_def Let_def
  mk_world_def mk_chan_def mk_sub_def CBM_example CBM_garbage


lemma wf_run: "exec xs NewWorld = Returns w \<Longrightarrow> wf_world w"
  using wf_exec [OF wf_NewWorld] by blast

lemma Listen_step_fields:
  assumes "step (Op_Listen i) w = Returns w'"
  shows "subs w' = subs w @ [\<lparr>recv_ch = length (heap (sink w)),
             cancel = \<lparr>cf_ch = length (heap (sink w)), cf_id = i\<rparr>, inbox = []\<rparr>]"
    and "heap (sink w') = heap (sink w) @ [make_chan 1000]"
    and "listeners (sink w') = AList.update i (length (heap (sink w))) (listeners (sink w))"
  using assms unfolding Listen_step by auto

lemma Listen_new_subscription:
  assumes "step (Op_Listen i) w = Returns w'"
  shows "recv_ch (subs w' ! length (subs w)) = length (heap (sink w))"
    and "cancel (subs w' ! length (subs w)) = \<lparr>cf_ch = length (heap (sink w)), cf_id = i\<rparr>"
    and "registered (length (subs w)) w'"
    and "placed (length (subs w)) w' = []"
proof -
  note f = Listen_step_fields [OF assms]
  show r: "recv_ch (subs w' ! length (subs w)) = length (heap (sink w))"
    and c: "cancel (subs w' ! length (subs w)) = \<lparr>cf_ch = length (heap (sink w)), cf_id = i\<rparr>"
    using f(1) by simp_all
  have i: "inbox (subs w' ! length (subs w)) = []" using f(1) by simp
  show "registered (length (subs w)) w'"
    unfolding registered_def r c using f(3) update_mem [of i "length (heap (sink w))"] by simp
  show "placed (length (subs w)) w' = []"
    unfolding placed_def r i using f(2) by (simp add: make_chan_def)
qed

text \<open>
  Claim C7. In every state that a run reaches, \<open>Close\<close> returns, with a nil error; the
  map it leaves is empty, and every channel the map held is closed. After it, at any
  later point of the run, \<open>Listen\<close> returns: it makes a new channel at a new address
  (so none of the closed ones), open and empty, and the map holds it under the id
  drawn; the new subscription is registered, nothing has been placed in its queue, and
  the registry's invariant holds.
\<close>

theorem C7_shutdown:
  assumes "exec xs NewWorld = Returns w"
  shows "\<exists>w'. step Op_Close w = Returns w' \<and> Close (sink w) = Returns (None, sink w')
     \<and> listeners (sink w') = []
     \<and> (\<forall>(k, ch) \<in> set (listeners (sink w)). closed (heap (sink w') ! ch))
     \<and> (\<forall>ys w'' i. exec ys w' = Returns w'' \<longrightarrow>
          (\<exists>w3. step (Op_Listen i) w'' = Returns w3
             \<and> recv_ch (subs w3 ! length (subs w'')) = length (heap (sink w''))
             \<and> heap (sink w3) = heap (sink w'') @ [make_chan 1000]
             \<and> registered (length (subs w'')) w3
             \<and> placed (length (subs w'')) w3 = []
             \<and> registry_inv (sink w3)))"
proof -
  have wf: "wf_world w" using wf_run [OF assms] .
  from Close_step_effect [OF wf] obtain w' where
    st: "step Op_Close w = Returns w'" and cl: "Close (sink w) = Returns (None, sink w')"
    and ls: "listeners (sink w') = []"
    and eff: "\<forall>a < length (heap (sink w)). heap (sink w') ! a =
           (if a \<in> snd ` set (listeners (sink w)) then (heap (sink w) ! a)\<lparr>closed := True\<rparr>
            else heap (sink w) ! a)"
    by blast
  have wf': "wf_world w'" using wf_step [OF wf st] .
  have closed_all: "\<forall>(k, ch) \<in> set (listeners (sink w)). closed (heap (sink w') ! ch)"
  proof (clarify)
    fix k ch assume e: "(k, ch) \<in> set (listeners (sink w))"
    from inv_entry [OF wf_inv [OF wf] e] have "ch < length (heap (sink w))" by simp
    moreover from e have "ch \<in> snd ` set (listeners (sink w))" by force
    ultimately show "closed (heap (sink w') ! ch)" using eff by simp
  qed
  have later: "\<forall>ys w'' i. exec ys w' = Returns w'' \<longrightarrow>
          (\<exists>w3. step (Op_Listen i) w'' = Returns w3
             \<and> recv_ch (subs w3 ! length (subs w'')) = length (heap (sink w''))
             \<and> heap (sink w3) = heap (sink w'') @ [make_chan 1000]
             \<and> registered (length (subs w'')) w3
             \<and> placed (length (subs w'')) w3 = []
             \<and> registry_inv (sink w3))"
  proof (intro allI impI)
    fix ys w'' i assume run: "exec ys w' = Returns w''"
    have wf'': "wf_world w''" using wf_exec [OF wf' run] .
    obtain w3 where s3: "step (Op_Listen i) w'' = Returns w3" using Listen_step by blast
    note n = Listen_new_subscription [OF s3]
    have "registry_inv (sink w3)" using wf_inv [OF wf_step [OF wf'' s3]] .
    moreover have "heap (sink w3) = heap (sink w'') @ [make_chan 1000]"
      using Listen_step_fields(2) [OF s3] .
    ultimately show "\<exists>w3. step (Op_Listen i) w'' = Returns w3
             \<and> recv_ch (subs w3 ! length (subs w'')) = length (heap (sink w''))
             \<and> heap (sink w3) = heap (sink w'') @ [make_chan 1000]
             \<and> registered (length (subs w'')) w3
             \<and> placed (length (subs w'')) w3 = []
             \<and> registry_inv (sink w3)"
      using s3 n(1) n(3) n(4) by blast
  qed
  from st cl ls closed_all later show ?thesis by blast
qed


theorem C7_shutdown_witness:
  "exec [Op_Listen ''bcdfgh'', Op_Write example_record] NewWorld
     = Returns (mk_world [(''bcdfgh'', 0)] [mk_chan [example_message] False]
                  [mk_sub ''bcdfgh'' 0 []])
   \<and> step Op_Close (mk_world [(''bcdfgh'', 0)] [mk_chan [example_message] False]
                  [mk_sub ''bcdfgh'' 0 []])
     = Returns (mk_world [] [mk_chan [example_message] True] [mk_sub ''bcdfgh'' 0 []])
   \<and> Close (sink (mk_world [(''bcdfgh'', 0)] [mk_chan [example_message] False]
                  [mk_sub ''bcdfgh'' 0 []]))
     = Returns (None, sink (mk_world [] [mk_chan [example_message] True] [mk_sub ''bcdfgh'' 0 []]))
   \<and> step (Op_Listen ''bcdfgh'')
        (mk_world [] [mk_chan [example_message] True] [mk_sub ''bcdfgh'' 0 []])
     = Returns (mk_world [(''bcdfgh'', 1)] [mk_chan [example_message] True, mk_chan [] False]
                  [mk_sub ''bcdfgh'' 0 [], mk_sub ''bcdfgh'' 1 []])
   \<and> registered 1 (mk_world [(''bcdfgh'', 1)] [mk_chan [example_message] True, mk_chan [] False]
                  [mk_sub ''bcdfgh'' 0 [], mk_sub ''bcdfgh'' 1 []])
   \<and> registry_inv (sink (mk_world [(''bcdfgh'', 1)]
                  [mk_chan [example_message] True, mk_chan [] False]
                  [mk_sub ''bcdfgh'' 0 [], mk_sub ''bcdfgh'' 1 []]))"
proof -
  let ?W = "mk_world [(''bcdfgh'', 0)] [mk_chan [example_message] False] [mk_sub ''bcdfgh'' 0 []]"
  let ?W' = "mk_world [] [mk_chan [example_message] True] [mk_sub ''bcdfgh'' 0 []]"
  let ?W3 = "mk_world [(''bcdfgh'', 1)] [mk_chan [example_message] True, mk_chan [] False]
                  [mk_sub ''bcdfgh'' 0 [], mk_sub ''bcdfgh'' 1 []]"
  have run: "exec [Op_Listen ''bcdfgh'', Op_Write example_record] NewWorld = Returns ?W"
    by (simp add: run_simps)
  have cl: "step Op_Close ?W = Returns ?W'" by (simp add: run_simps)
  have li: "step (Op_Listen ''bcdfgh'') ?W' = Returns ?W3" by (simp add: run_simps)
  from C7_shutdown [OF run] obtain w' where
    st: "step Op_Close ?W = Returns w'" and c: "Close (sink ?W) = Returns (None, sink w')"
    and later: "\<forall>ys w'' i. exec ys w' = Returns w'' \<longrightarrow>
          (\<exists>w3. step (Op_Listen i) w'' = Returns w3
             \<and> recv_ch (subs w3 ! length (subs w'')) = length (heap (sink w''))
             \<and> heap (sink w3) = heap (sink w'') @ [make_chan 1000]
             \<and> registered (length (subs w'')) w3
             \<and> placed (length (subs w'')) w3 = []
             \<and> registry_inv (sink w3))"
    by blast
  from st cl have w': "w' = ?W'" by simp
  have "exec [] ?W' = Returns ?W'" by simp
  with later w' obtain w3 where s3: "step (Op_Listen ''bcdfgh'') ?W' = Returns w3"
    and r: "registered (length (subs ?W')) w3" and inv: "registry_inv (sink w3)"
    by blast
  from s3 li have w3: "w3 = ?W3" by simp
  have "length (subs ?W') = 1" by (simp add: mk_world_def)
  with r inv w3 have "registered 1 ?W3" "registry_inv (sink ?W3)" by simp_all
  with run cl c w' li show ?thesis by simp
qed

text \<open>
  Claim C9 as stated fails for a first call made after \<open>Close\<close>: \<open>Close\<close> has closed
  the channel, and the cancel function, called for the first time, closes it again and
  panics.
\<close>

theorem C9_first_cancel_after_shutdown_counterexample:
  "returned (exec [Op_Listen ''bcdfgh'', Op_Close] NewWorld)
   \<and> exec [Op_Listen ''bcdfgh'', Op_Close, Op_Cancel 0] NewWorld = Panics"
  by (simp add: run_simps returned_def)

text \<open>
  Claim C9, amended. In every state that a run reaches, for every subscription made so
  far: when its channel is not yet closed, its cancel function returns, the channel is
  closed and the subscription's id is no key of the map; and from then on, whatever
  the run does next, calling the same cancel function again panics (it closes a closed
  channel). When the channel is already closed (by an earlier call, or by \<open>Close\<close>),
  the call panics.
\<close>

theorem C9_cancel_closes_once_then_panics:
  assumes "exec xs NewWorld = Returns w" and "k < length (subs w)"
  shows "(\<not> closed (heap (sink w) ! recv_ch (subs w ! k)) \<longrightarrow>
           (\<exists>w'. step (Op_Cancel k) w = Returns w'
              \<and> closed (heap (sink w') ! recv_ch (subs w' ! k))
              \<and> cf_id (cancel (subs w ! k)) \<notin> fst ` set (listeners (sink w'))
              \<and> (\<forall>ys w''. exec ys w' = Returns w'' \<longrightarrow> step (Op_Cancel k) w'' = Panics)))
       \<and> (closed (heap (sink w) ! recv_ch (subs w ! k)) \<longrightarrow> step (Op_Cancel k) w = Panics)"
proof (intro conjI impI)
  have wf: "wf_world w" using wf_run [OF assms(1)] .
  have rk: "recv_ch (subs w ! k) = k" using wf_sub [OF wf assms(2)] by simp
  have kh: "k < length (heap (sink w))" using assms(2) wf_len [OF wf] by simp
  {
    assume "closed (heap (sink w) ! recv_ch (subs w ! k))"
    then show "step (Op_Cancel k) w = Panics"
      using Cancel_step [OF wf assms(2)] rk by simp
  }
  assume op: "\<not> closed (heap (sink w) ! recv_ch (subs w ! k))"
  let ?h = "heap (sink w)"
  let ?w' = "w\<lparr>sink := (sink w)\<lparr>heap := ?h[k := (?h ! k)\<lparr>closed := True\<rparr>],
              listeners := AList.delete (cf_id (cancel (subs w ! k))) (listeners (sink w))\<rparr>\<rparr>"
  have st: "step (Op_Cancel k) w = Returns ?w'"
    using Cancel_step [OF wf assms(2)] op rk by simp
  have wf': "wf_world ?w'" using wf_step [OF wf st] .
  have k': "k < length (subs ?w')" using assms(2) by simp
  have c': "closed (heap (sink ?w') ! k)" using kh by simp
  have "closed (heap (sink ?w') ! recv_ch (subs ?w' ! k))" using rk kh by simp
  moreover have "cf_id (cancel (subs w ! k)) \<notin> fst ` set (listeners (sink ?w'))"
    using AList.delete_notin_dom [of "cf_id (cancel (subs w ! k))" "listeners (sink w)"] by simp
  moreover have "\<forall>ys w''. exec ys ?w' = Returns w'' \<longrightarrow> step (Op_Cancel k) w'' = Panics"
  proof (intro allI impI)
    fix ys w'' assume run: "exec ys ?w' = Returns w''"
    from exec_frame [OF wf' k' run] c'
    have "k < length (subs w'')" and "closed (heap (sink w'') ! k)" by blast+
    then show "step (Op_Cancel k) w'' = Panics"
      using Cancel_step [OF wf_exec [OF wf' run]] by simp
  qed
  ultimately show "\<exists>w'. step (Op_Cancel k) w = Returns w'
              \<and> closed (heap (sink w') ! recv_ch (subs w' ! k))
              \<and> cf_id (cancel (subs w ! k)) \<notin> fst ` set (listeners (sink w'))
              \<and> (\<forall>ys w''. exec ys w' = Returns w'' \<longrightarrow> step (Op_Cancel k) w'' = Panics)"
    using st by blast
qed


theorem C9_cancel_closes_once_then_panics_witness:
  "exec [Op_Listen ''bcdfgh'', Op_Write example_record] NewWorld
     = Returns (mk_world [(''bcdfgh'', 0)] [mk_chan [example_message] False]
                  [mk_sub ''bcdfgh'' 0 []])
   \<and> (0::nat) < length (subs (mk_world [(''bcdfgh'', 0)] [mk_chan [example_message] False]
                  [mk_sub ''bcdfgh'' 0 []]))
   \<and> \<not> closed (heap (sink (mk_world [(''bcdfgh'', 0)] [mk_chan [example_message] False]
                  [mk_sub ''bcdfgh'' 0 []])) ! 0)
   \<and> step (Op_Cancel 0) (mk_world [(''bcdfgh'', 0)] [mk_chan [example_message] False]
                  [mk_sub ''bcdfgh'' 0 []])
     = Returns (mk_world [] [mk_chan [example_message] True] [mk_sub ''bcdfgh'' 0 []])
   \<and> exec [Op_Write example_record] (mk_world [] [mk_chan [example_message] True]
                  [mk_sub ''bcdfgh'' 0 []])
     = Returns (mk_world [] [mk_chan [example_message] True] [mk_sub ''bcdfgh'' 0 []])
   \<and> step (Op_Cancel 0) (mk_world [] [mk_chan [example_message] True] [mk_sub ''bcdfgh'' 0 []])
     = Panics"
proof -
  let ?W = "mk_world [(''bcdfgh'', 0)] [mk_chan [example_message] False] [mk_sub ''bcdfgh'' 0 []]"
  let ?W' = "mk_world [] [mk_chan [example_message] True] [mk_sub ''bcdfgh'' 0 []]"
  have run: "exec [Op_Listen ''bcdfgh'', Op_Write example_record] NewWorld = Returns ?W"
    by (simp add: run_simps)
  have k: "(0::nat) < length (subs ?W)" by (simp add: mk_world_def)
  have op: "\<not> closed (heap (sink ?W) ! recv_ch (subs ?W ! 0))"
    by (simp add: mk_world_def mk_chan_def mk_sub_def)
  have ca: "step (Op_Cancel 0) ?W = Returns ?W'" by (simp add: run_simps)
  have wr: "exec [Op_Write example_record] ?W' = Returns ?W'" by (simp add: run_simps)
  from C9_cancel_closes_once_then_panics [OF run k] op obtain w' where
    st: "step (Op_Cancel 0) ?W = Returns w'"
    and later: "\<forall>ys w''. exec ys w' = Returns w'' \<longrightarrow> step (Op_Cancel 0) w'' = Panics"
    by blast
  from st ca have "w' = ?W'" by simp
  with later wr have "step (Op_Cancel 0) ?W' = Panics" by blast
  with run k op ca wr show ?thesis by (simp add: mk_world_def mk_sub_def)
qed

text \<open>
  Claim C6 as stated fails for a subscription that has left the map. When \<open>Listen\<close>
  draws the id of an earlier subscription, the earlier entry is overwritten: the earlier
  subscriber, which never cancelled, receives nothing of what is ingested afterwards.
  The same holds, as intended, after its own cancel function was called.
\<close>

theorem C6_collision_counterexample:
  "step (Op_Listen ''bcdfgh'') NewWorld
     = Returns (mk_world [(''bcdfgh'', 0)] [mk_chan [] False] [mk_sub ''bcdfgh'' 0 []])
   \<and> exec [Op_Listen ''bcdfgh'', Op_Write example_record]
        (mk_world [(''bcdfgh'', 0)] [mk_chan [] False] [mk_sub ''bcdfgh'' 0 []])
     = Returns (mk_world [(''bcdfgh'', 1)] [mk_chan [] False, mk_chan [example_message] False]
                  [mk_sub ''bcdfgh'' 0 [], mk_sub ''bcdfgh'' 1 []])
   \<and> ingested [Op_Listen ''bcdfgh'', Op_Write example_record] = [example_message]
   \<and> placed 0 (mk_world [(''bcdfgh'', 1)] [mk_chan [] False, mk_chan [example_message] False]
                  [mk_sub ''bcdfgh'' 0 [], mk_sub ''bcdfgh'' 1 []]) = []
   \<and> exec [Op_Cancel 0, Op_Write example_record]
        (mk_world [(''bcdfgh'', 0)] [mk_chan [] False] [mk_sub ''bcdfgh'' 0 []])
     = Returns (mk_world [] [mk_chan [] True] [mk_sub ''bcdfgh'' 0 []])
   \<and> ingested [Op_Cancel 0, Op_Write example_record] = [example_message]
   \<and> placed 0 (mk_world [] [mk_chan [] True] [mk_sub ''bcdfgh'' 0 []]) = []"
  by (simp add: run_simps placed_def)

text \<open>
  Claim C6, amended. Take any run, then a call of \<open>Listen\<close>, then any further run
  \<open>ys\<close> in which every call returns. Right after \<open>Listen\<close> nothing has been placed in
  the new subscription's queue (no replay). After \<open>ys\<close>, the messages placed in its
  queue (received and waiting, in order) are a prefix of the messages ingested by
  \<open>ys\<close>, in the order of ingestion; and when the subscription is still registered
  (not cancelled, not shut down, not overwritten by a colliding id) they are exactly
  the messages ingested by \<open>ys\<close>.
\<close>

theorem C6_queue_is_ingest_sequence_while_registered:
  assumes "exec xs NewWorld = Returns w1"
    and "step (Op_Listen i) w1 = Returns w2"
    and "exec ys w2 = Returns w3"
  shows "placed (length (subs w1)) w2 = []
       \<and> prefix (placed (length (subs w1)) w3) (ingested ys)
       \<and> (registered (length (subs w1)) w3 \<longrightarrow> placed (length (subs w1)) w3 = ingested ys)"
proof -
  let ?k = "length (subs w1)"
  have wf1: "wf_world w1" using wf_run [OF assms(1)] .
  have wf2: "wf_world w2" using wf_step [OF wf1 assms(2)] .
  note n = Listen_new_subscription [OF assms(2)]
  have k2: "?k < length (subs w2)" using Listen_step_fields(1) [OF assms(2)] by simp
  from placed_exec [OF wf2 k2 assms(3)] obtain zs where
    p: "prefix zs ys" and pl: "placed ?k w3 = placed ?k w2 @ ingested zs"
    and r: "registered ?k w3 \<longrightarrow> zs = ys" by blast
  from p obtain us where "ys = zs @ us" by (auto simp: prefix_def)
  then have "prefix (ingested zs) (ingested ys)" by (simp add: ingested_append)
  with pl r n(4) show ?thesis by auto
qed

theorem C6_queue_is_ingest_sequence_while_registered_witness:
  "exec [Op_Listen ''bcdfgh'', Op_Write example_record] NewWorld
     = Returns (mk_world [(''bcdfgh'', 0)] [mk_chan [example_message] False]
                  [mk_sub ''bcdfgh'' 0 []])
   \<and> step (Op_Listen ''bcdfgk'')
        (mk_world [(''bcdfgh'', 0)] [mk_chan [example_message] False] [mk_sub ''bcdfgh'' 0 []])
     = Returns (mk_world [(''bcdfgh'', 0), (''bcdfgk'', 1)]
                  [mk_chan [example_message] False, mk_chan [] False]
                  [mk_sub ''bcdfgh'' 0 [], mk_sub ''bcdfgk'' 1 []])
   \<and> exec [Op_Write example_record, Op_Write ''garbage'', Op_Recv 1,
            Op_Write payload_record]
        (mk_world [(''bcdfgh'', 0), (''bcdfgk'', 1)]
                  [mk_chan [example_message] False, mk_chan [] False]
                  [mk_sub ''bcdfgh'' 0 [], mk_sub ''bcdfgk'' 1 []])
     = Returns (mk_world [(''bcdfgh'', 0), (''bcdfgk'', 1)]
                  [mk_chan [example_message, example_message, payload_message] False,
                   mk_chan [payload_message] False]
                  [mk_sub ''bcdfgh'' 0 [], mk_sub ''bcdfgk'' 1 [example_message]])
   \<and> registered 1 (mk_world [(''bcdfgh'', 0), (''bcdfgk'', 1)]
                  [mk_chan [example_message, example_message, payload_message] False,
                   mk_chan [payload_message] False]
                  [mk_sub ''bcdfgh'' 0 [], mk_sub ''bcdfgk'' 1 [example_message]])
   \<and> placed 1 (mk_world [(''bcdfgh'', 0), (''bcdfgk'', 1)]
                  [mk_chan [example_message, example_message, payload_message] False,
                   mk_chan [payload_message] False]
                  [mk_sub ''bcdfgh'' 0 [], mk_sub ''bcdfgk'' 1 [example_message]])
     = [example_message, payload_message]
   \<and> ingested [Op_Write example_record, Op_Write ''garbage'', Op_Recv 1,
            Op_Write payload_record]
     = [example_message, payload_message]"
proof -
  let ?W1 = "mk_world [(''bcdfgh'', 0)] [mk_chan [example_message] False] [mk_sub ''bcdfgh'' 0 []]"
  let ?W2 = "mk_world [(''bcdfgh'', 0), (''bcdfgk'', 1)]
                  [mk_chan [example_message] False, mk_chan [] False]
                  [mk_sub ''bcdfgh'' 0 [], mk_sub ''bcdfgk'' 1 []]"
  let ?W3 = "mk_world [(''bcdfgh'', 0), (''bcdfgk'', 1)]
                  [mk_chan [example_message, example_message, payload_message] False,
                   mk_chan [payload_message] False]
                  [mk_sub ''bcdfgh'' 0 [], mk_sub ''bcdfgk'' 1 [example_message]]"
  let ?ys = "[Op_Write example_record, Op_Write ''garbage'', Op_Recv 1,
            Op_Write payload_record]"
  have r1: "exec [Op_Listen ''bcdfgh'', Op_Write example_record] NewWorld = Returns ?W1"
    by (simp add: run_simps)
  have r2: "step (Op_Listen ''bcdfgk'') ?W1 = Returns ?W2" by (simp add: run_simps)
  have r3: "exec ?ys ?W2 = Returns ?W3" by (simp add: run_simps CBM_example_payload)
  have reg: "registered 1 ?W3" by (simp add: registered_def mk_world_def mk_sub_def)
  have ing: "ingested ?ys = [example_message, payload_message]"
    by (simp add: CBM_example CBM_garbage CBM_example_payload)
  have l: "length (subs ?W1) = 1" by (simp add: mk_world_def)
  from C6_queue_is_ingest_sequence_while_registered [OF r1 r2 r3] reg l
  have "placed 1 ?W3 = ingested ?ys" by simp
  with r1 r2 r3 reg ing show ?thesis by simp
qed


lemma send_loop_blocks:
  "distinct (map snd es) \<Longrightarrow>
   \<forall>(k, a) \<in> set es. a < length h \<and> \<not> closed (h ! a) \<Longrightarrow>
   \<exists>(k, a) \<in> set es. \<not> length (buf (h ! a)) < cap (h ! a) \<Longrightarrow>
   send_loop m es h = Blocks"
proof (induction es arbitrary: h)
  case Nil
  then show ?case by simp
next
  case (Cons e es)
  obtain k a where e: "e = (k, a)" by (cases e)
  from Cons.prems(2) e have a: "a < length h" and op: "\<not> closed (h ! a)" by auto
  show ?case
  proof (cases "length (buf (h ! a)) < cap (h ! a)")
    case False
    with a op have "on_chan (chan_send m) a h = Blocks" by (simp add: send_Blocks)
    with e show ?thesis by simp
  next
    case True
    let ?h1 = "h[a := (h ! a)\<lparr>buf := buf (h ! a) @ [m]\<rparr>]"
    from True a op have h1: "on_chan (chan_send m) a h = Returns ?h1" by (simp add: send_Returns)
    from Cons.prems(1) e have d: "distinct (map snd es)" and na: "a \<notin> snd ` set es" by auto
    have same: "\<And>k' b. (k', b) \<in> set es \<Longrightarrow> ?h1 ! b = h ! b"
    proof -
      fix k' b assume "(k', b) \<in> set es"
      with na have "b \<noteq> a" by force
      then show "?h1 ! b = h ! b" by simp
    qed
    have p1: "\<forall>(k', b) \<in> set es. b < length ?h1 \<and> \<not> closed (?h1 ! b)"
      using Cons.prems(2) same by auto
    from Cons.prems(3) e True obtain k' b where kb: "(k', b) \<in> set es"
      and full: "\<not> length (buf (h ! b)) < cap (h ! b)" by auto
    have p2: "\<exists>(k', b) \<in> set es. \<not> length (buf (?h1 ! b)) < cap (?h1 ! b)"
      using kb full same [OF kb] by (intro bexI [of _ "(k', b)"]) simp_all
    from Cons.IH [OF d p1 p2] h1 e show ?thesis by simp
  qed
qed

text \<open>
  The order in which the loops of \<open>send\<close> and \<open>Close\<close> visit the map does not matter:
  on a map that satisfies the invariant, two lists with the same entries give the same
  outcome.
\<close>

lemma send_loop_order:
  assumes "distinct (map snd es)" and "distinct (map snd es')" and "set es = set es'"
    and "\<forall>(k, a) \<in> set es. a < length h \<and> \<not> closed (h ! a)"
  shows "send_loop m es h = send_loop m es' h"
proof (cases "\<exists>(k, a) \<in> set es. \<not> length (buf (h ! a)) < cap (h ! a)")
  case True
  from send_loop_blocks [OF assms(1) assms(4) True]
    send_loop_blocks [OF assms(2), of h m] assms(3) assms(4) True
  show ?thesis by simp
next
  case False
  with assms(4) have room: "\<forall>(k, a) \<in> set es. a < length h \<and> \<not> closed (h ! a)
      \<and> length (buf (h ! a)) < cap (h ! a)" by auto
  from send_loop_returns [OF assms(1) room] obtain h1 where
    r1: "send_loop m es h = Returns h1" by blast
  from room assms(3) have room': "\<forall>(k, a) \<in> set es'. a < length h \<and> \<not> closed (h ! a)
      \<and> length (buf (h ! a)) < cap (h ! a)" by simp
  from send_loop_returns [OF assms(2) room'] obtain h2 where
    r2: "send_loop m es' h = Returns h2" by blast
  from send_loop_effect [OF r1 assms(1)] send_loop_effect [OF r2 assms(2)] assms(3)
  have "h1 = h2" by (simp add: list_eq_iff_nth_eq)
  with r1 r2 show ?thesis by simp
qed

lemma Close_loop_order:
  assumes "distinct (map snd es)" and "distinct (map snd es')" and "set es = set es'"
    and "\<forall>(k, a) \<in> set es. a < length (heap o') \<and> \<not> closed (heap o' ! a)"
  shows "Close_loop es o' = Close_loop es' o'"
proof -
  from Close_loop_effect [OF assms(1) assms(4)] obtain o1 where
    r1: "Close_loop es o' = Returns o1" and c1: "converter o1 = converter o'"
    and l1: "length (heap o1) = length (heap o')"
    and e1: "\<forall>a < length (heap o'). heap o1 ! a =
           (if a \<in> snd ` set es then (heap o' ! a)\<lparr>closed := True\<rparr> else heap o' ! a)"
    and s1: "listeners o1 = filter (\<lambda>e. fst e \<notin> fst ` set es) (listeners o')"
    by blast
  from assms(3) assms(4)
  have "\<forall>(k, a) \<in> set es'. a < length (heap o') \<and> \<not> closed (heap o' ! a)" by simp
  from Close_loop_effect [OF assms(2) this] obtain o2 where
    r2: "Close_loop es' o' = Returns o2" and c2: "converter o2 = converter o'"
    and l2: "length (heap o2) = length (heap o')"
    and e2: "\<forall>a < length (heap o'). heap o2 ! a =
           (if a \<in> snd ` set es' then (heap o' ! a)\<lparr>closed := True\<rparr> else heap o' ! a)"
    and s2: "listeners o2 = filter (\<lambda>e. fst e \<notin> fst ` set es') (listeners o')"
    by blast
  have "heap o1 = heap o2" using l1 l2 e1 e2 assms(3) by (simp add: list_eq_iff_nth_eq)
  moreover have "listeners o1 = listeners o2" using s1 s2 assms(3) by simp
  ultimately have "o1 = o2" using c1 c2 by simp
  with r1 r2 show ?thesis by simp
qed

lemma fill_queue:
  "j + n \<le> 1000 \<Longrightarrow>
   exec (replicate n (Op_Write example_record))
     (mk_world [(a, 0)] [mk_chan (replicate j example_message) False] ss)
   = Returns (mk_world [(a, 0)] [mk_chan (replicate (j + n) example_message) False] ss)"
proof (induction n arbitrary: j)
  case 0
  then show ?case by simp
next
  case (Suc n)
  then have j: "j < 1000" and le: "Suc j + n \<le> 1000" by simp_all
  have "step (Op_Write example_record)
          (mk_world [(a, 0)] [mk_chan (replicate j example_message) False] ss)
        = Returns (mk_world [(a, 0)] [mk_chan (replicate (Suc j) example_message) False] ss)"
    using j by (simp add: run_simps replicate_append_same)
  with Suc.IH [OF le] show ?case by simp
qed

lemma run_to_full_world:
  "exec (Op_Listen ''bcdfgh'' # replicate 1000 (Op_Write example_record)) NewWorld
     = Returns full_world"
proof -
  have "step (Op_Listen ''bcdfgh'') NewWorld
      = Returns (mk_world [(''bcdfgh'', 0)] [mk_chan (replicate 0 example_message) False]
          [mk_sub ''bcdfgh'' 0 []])"
    by (simp add: run_simps)
  moreover have "exec (replicate 1000 (Op_Write example_record))
      (mk_world [(''bcdfgh'', 0)] [mk_chan (replicate 0 example_message) False]
          [mk_sub ''bcdfgh'' 0 []]) = Returns full_world"
    using fill_queue [of 0 1000 "''bcdfgh''" "[mk_sub ''bcdfgh'' 0 []]"]
    by (simp add: full_world_def)
  ultimately show ?thesis by (simp only: exec.simps outcome.case)
qed

text \<open>
  Claim C5 as stated fails when a listener's queue is full: after \<open>Listen\<close> and 1000
  records written with nothing received, the channel holds 1000 messages, and the next
  \<open>Write\<close> of a record that parses blocks in the send instead of returning.
\<close>

theorem C5_full_queue_counterexample:
  "exec (Op_Listen ''bcdfgh'' # replicate 1000 (Op_Write example_record)) NewWorld
     = Returns full_world
   \<and> snd (ConvertBytesToMessage example_record) = None
   \<and> Write example_record (sink full_world) = Blocks"
proof -
  have "Write example_record (sink full_world) = Blocks"
    by (simp add: full_world_def run_simps)
  with run_to_full_world show ?thesis by (simp add: CBM_example)
qed

text \<open>
  Claim C5, amended. In every state that a run reaches, with any number of listeners,
  zero included, for every record that the converter accepts: when every registered
  channel holds fewer than 1000 messages, \<open>Write\<close> returns the length of the record and
  a nil error; when some registered channel holds 1000, \<open>Write\<close> blocks (it returns
  only once a receiver has made room, which no call of the sink does).
\<close>

theorem C5_write_returns_length_when_room:
  assumes "exec xs NewWorld = Returns w" and "snd (ConvertBytesToMessage p) = None"
  shows "((\<forall>(k, ch) \<in> set (listeners (sink w)). length (buf (heap (sink w) ! ch)) < 1000)
            \<longrightarrow> (\<exists>o'. Write p (sink w) = Returns ((int (length p), None), o')))
       \<and> (\<not> (\<forall>(k, ch) \<in> set (listeners (sink w)). length (buf (heap (sink w) ! ch)) < 1000)
            \<longrightarrow> Write p (sink w) = Blocks)"
proof (intro conjI impI)
  have wf: "wf_world w" using wf_run [OF assms(1)] .
  obtain m where cb: "converter (sink w) p = (m, None)"
    using assms(2) wf_conv [OF wf] by (cases "ConvertBytesToMessage p") simp
  have entry: "\<And>k ch. (k, ch) \<in> set (listeners (sink w)) \<Longrightarrow>
      ch < length (heap (sink w)) \<and> \<not> closed (heap (sink w) ! ch)
      \<and> cap (heap (sink w) ! ch) = 1000"
  proof -
    fix k ch assume e: "(k, ch) \<in> set (listeners (sink w))"
    from inv_entry [OF wf_inv [OF wf] e]
    have "ch < length (heap (sink w))" "\<not> closed (heap (sink w) ! ch)" by simp_all
    moreover from this(1) have "cap (heap (sink w) ! ch) = 1000" using wf_cap [OF wf] by simp
    ultimately show "ch < length (heap (sink w)) \<and> \<not> closed (heap (sink w) ! ch)
      \<and> cap (heap (sink w) ! ch) = 1000" by simp
  qed
  {
    assume room: "\<forall>(k, ch) \<in> set (listeners (sink w)). length (buf (heap (sink w) ! ch)) < 1000"
    have "\<forall>(k, a) \<in> set (listeners (sink w)). a < length (heap (sink w))
        \<and> \<not> closed (heap (sink w) ! a)
        \<and> length (buf (heap (sink w) ! a)) < cap (heap (sink w) ! a)"
      using entry room by auto
    from send_loop_returns [OF wf_vals [OF wf] this, of m] obtain h where
      "send_loop m (listeners (sink w)) (heap (sink w)) = Returns h" by blast
    then show "\<exists>o'. Write p (sink w) = Returns ((int (length p), None), o')"
      using cb by (simp add: Write_def send_def)
  }
  assume "\<not> (\<forall>(k, ch) \<in> set (listeners (sink w)). length (buf (heap (sink w) ! ch)) < 1000)"
  then obtain k ch where e: "(k, ch) \<in> set (listeners (sink w))"
    and full: "\<not> length (buf (heap (sink w) ! ch)) < 1000" by auto
  have p2: "\<exists>(k, a) \<in> set (listeners (sink w)).
      \<not> length (buf (heap (sink w) ! a)) < cap (heap (sink w) ! a)"
    using e full entry [OF e] by (intro bexI [of _ "(k, ch)"]) simp_all
  have p1: "\<forall>(k, a) \<in> set (listeners (sink w)). a < length (heap (sink w))
        \<and> \<not> closed (heap (sink w) ! a)"
    using entry by auto
  from send_loop_blocks [OF wf_vals [OF wf] p1 p2, of m]
  show "Write p (sink w) = Blocks" using cb by (simp add: Write_def send_def)
qed

theorem C5_write_returns_length_when_room_witness:
  "exec [Op_Listen ''bcdfgh'', Op_Listen ''bcdfgk'', Op_Write example_record] NewWorld
     = Returns (mk_world [(''bcdfgh'', 0), (''bcdfgk'', 1)]
                  [mk_chan [example_message] False, mk_chan [example_message] False]
                  [mk_sub ''bcdfgh'' 0 [], mk_sub ''bcdfgk'' 1 []])
   \<and> snd (ConvertBytesToMessage payload_record) = None
   \<and> Write payload_record (sink (mk_world [(''bcdfgh'', 0), (''bcdfgk'', 1)]
                  [mk_chan [example_message] False, mk_chan [example_message] False]
                  [mk_sub ''bcdfgh'' 0 [], mk_sub ''bcdfgk'' 1 []]))
     = Returns ((int (length payload_record), None),
         sink (mk_world [(''bcdfgh'', 0), (''bcdfgk'', 1)]
                  [mk_chan [example_message, payload_message] False,
                   mk_chan [example_message, payload_message] False]
                  [mk_sub ''bcdfgh'' 0 [], mk_sub ''bcdfgk'' 1 []]))
   \<and> exec [] NewWorld = Returns NewWorld
   \<and> Write payload_record (sink NewWorld)
     = Returns ((int (length payload_record), None), sink NewWorld)
   \<and> exec (Op_Listen ''bcdfgh'' # replicate 1000 (Op_Write example_record)) NewWorld
     = Returns full_world
   \<and> Write payload_record (sink full_world) = Blocks"
proof -
  let ?W = "mk_world [(''bcdfgh'', 0), (''bcdfgk'', 1)]
                  [mk_chan [example_message] False, mk_chan [example_message] False]
                  [mk_sub ''bcdfgh'' 0 [], mk_sub ''bcdfgk'' 1 []]"
  let ?W' = "mk_world [(''bcdfgh'', 0), (''bcdfgk'', 1)]
                  [mk_chan [example_message, payload_message] False,
                   mk_chan [example_message, payload_message] False]
                  [mk_sub ''bcdfgh'' 0 [], mk_sub ''bcdfgk'' 1 []]"
  have run: "exec [Op_Listen ''bcdfgh'', Op_Listen ''bcdfgk'', Op_Write example_record] NewWorld
     = Returns ?W" by (simp add: run_simps)
  have ok: "snd (ConvertBytesToMessage payload_record) = None" by (simp add: CBM_example_payload)
  have room: "\<forall>(k, ch) \<in> set (listeners (sink ?W)). length (buf (heap (sink ?W) ! ch)) < 1000"
    by (simp add: mk_world_def mk_chan_def)
  from C5_write_returns_length_when_room [OF run ok] room
  obtain o' where w1: "Write payload_record (sink ?W) = Returns ((int (length payload_record), None), o')"
    by blast
  have "Write payload_record (sink ?W) = Returns ((int (length payload_record), None), sink ?W')"
    by (simp add: run_simps CBM_example_payload)
  with w1 have a: "Write payload_record (sink ?W)
      = Returns ((int (length payload_record), None), sink ?W')" by simp
  have run0: "exec [] NewWorld = Returns NewWorld" by simp
  have room0: "\<forall>(k, ch) \<in> set (listeners (sink NewWorld)).
      length (buf (heap (sink NewWorld) ! ch)) < 1000"
    by (simp add: NewWorld_def NewOctantSink_def)
  from C5_write_returns_length_when_room [OF run0 ok] room0
  obtain o0 where w0: "Write payload_record (sink NewWorld)
      = Returns ((int (length payload_record), None), o0)" by blast
  have "Write payload_record (sink NewWorld)
      = Returns ((int (length payload_record), None), sink NewWorld)"
    by (simp add: run_simps CBM_example_payload)
  with w0 have b: "Write payload_record (sink NewWorld)
      = Returns ((int (length payload_record), None), sink NewWorld)" by simp
  have runf: "exec (Op_Listen ''bcdfgh'' # replicate 1000 (Op_Write example_record)) NewWorld
     = Returns full_world" by (rule run_to_full_world)
  have nroom: "\<not> (\<forall>(k, ch) \<in> set (listeners (sink full_world)).
      length (buf (heap (sink full_world) ! ch)) < 1000)"
    by (simp add: full_world_def mk_world_def mk_chan_def)
  from C5_write_returns_length_when_room [OF runf ok] nroom
  have c: "Write payload_record (sink full_world) = Blocks" by blast
  from run ok a run0 b runf c show ?thesis by simp
qed


lemma Write_no_panic:
  assumes wf: "wf_world w"
  shows "Write p (sink w) \<noteq> Panics"
proof -
  have "\<forall>(k, a) \<in> set (listeners (sink w)). a < length (heap (sink w))
      \<and> \<not> closed (heap (sink w) ! a)"
    using inv_entry [OF wf_inv [OF wf]] by auto
  from send_loop_no_panic [OF this]
  show ?thesis by (auto simp: Write_def send_def split: prod.splits option.splits outcome.splits)
qed

lemma update_keeps: "(a, b) \<in> set al \<Longrightarrow> a \<noteq> k \<Longrightarrow> (a, b) \<in> set (AList.update k v al)"
  by (induction al) auto

lemma removed_closed_same:
  "listeners (sink w') = listeners (sink w) \<Longrightarrow> removed_closed w w'"
  by (auto simp: removed_closed_def)

lemma open_registeredI:
  "(\<And>k. k < length (subs w) \<Longrightarrow> \<not> closed (heap (sink w) ! k) \<Longrightarrow> registered k w)
   \<Longrightarrow> open_registered w"
  by (simp add: open_registered_def)

lemma open_registeredD:
  "open_registered w \<Longrightarrow> k < length (subs w) \<Longrightarrow> \<not> closed (heap (sink w) ! k)
   \<Longrightarrow> registered k w"
  by (simp add: open_registered_def)

lemma fresh_step_Write:
  assumes wf: "wf_world w" and opr: "open_registered w"
    and st: "step (Op_Write p) w = Returns w'"
  shows "open_registered w' \<and> removed_closed w w'"
proof
  note eff = Write_step_effect [OF wf st]
  show "removed_closed w w'" using removed_closed_same [OF eff(2)] .
  show "open_registered w'"
  proof (rule open_registeredI)
    fix k assume k: "k < length (subs w')" and op: "\<not> closed (heap (sink w') ! k)"
    from k eff(1) have k0: "k < length (subs w)" by simp
    then have "k < length (heap (sink w))" using wf_len [OF wf] by simp
    with eff(5) op have "\<not> closed (heap (sink w) ! k)" by (auto split: if_splits)
    from open_registeredD [OF opr k0 this] show "registered k w'"
      using eff(1) eff(2) by (simp add: registered_def)
  qed
qed

lemma fresh_step_Close:
  assumes wf: "wf_world w" and opr: "open_registered w"
    and st: "step Op_Close w = Returns w'"
  shows "open_registered w' \<and> removed_closed w w'"
proof
  from Close_step_effect [OF wf] st
  have s: "subs w' = subs w" and l: "listeners (sink w') = []"
    and eff: "\<forall>a < length (heap (sink w)). heap (sink w') ! a =
           (if a \<in> snd ` set (listeners (sink w)) then (heap (sink w) ! a)\<lparr>closed := True\<rparr>
            else heap (sink w) ! a)"
    by auto
  show "removed_closed w w'"
    unfolding removed_closed_def
  proof (clarify)
    fix i ch assume e: "(i, ch) \<in> set (listeners (sink w))"
    from inv_entry [OF wf_inv [OF wf] e]
    have c: "ch < length (heap (sink w))" and o: "\<not> closed (heap (sink w) ! ch)" by simp_all
    from e have "ch \<in> snd ` set (listeners (sink w))" by force
    with eff c have "closed (heap (sink w') ! ch)" by simp
    with o show "\<not> closed (heap (sink w) ! ch) \<and> closed (heap (sink w') ! ch)" by simp
  qed
  show "open_registered w'"
  proof (rule open_registeredI)
    fix k assume k: "k < length (subs w')" and op: "\<not> closed (heap (sink w') ! k)"
    from k s have k0: "k < length (subs w)" by simp
    then have kh: "k < length (heap (sink w))" using wf_len [OF wf] by simp
    with eff op have nin: "k \<notin> snd ` set (listeners (sink w))"
      and "\<not> closed (heap (sink w) ! k)" by (auto split: if_splits)
    from open_registeredD [OF opr k0 this(2)] registered_iff [OF wf k0] nin
    show "registered k w'" by simp
  qed
qed

lemma fresh_step_Listen:
  assumes wf: "wf_world w" and opr: "open_registered w"
    and fr: "i \<notin> fst ` set (listeners (sink w))"
    and st: "step (Op_Listen i) w = Returns w'"
  shows "open_registered w' \<and> removed_closed w w'"
proof
  note f = Listen_step_fields [OF st]
  have keep: "\<And>a b. (a, b) \<in> set (listeners (sink w)) \<Longrightarrow> (a, b) \<in> set (listeners (sink w'))"
  proof -
    fix a b assume e: "(a, b) \<in> set (listeners (sink w))"
    with fr have "a \<noteq> i" by force
    from update_keeps [OF e this] show "(a, b) \<in> set (listeners (sink w'))" using f(3) by simp
  qed
  show "removed_closed w w'" unfolding removed_closed_def using keep by blast
  show "open_registered w'"
  proof (rule open_registeredI)
    fix k assume k: "k < length (subs w')" and op: "\<not> closed (heap (sink w') ! k)"
    from k f(1) have "k < length (subs w) \<or> k = length (subs w)" by auto
    then show "registered k w'"
    proof
      assume k0: "k < length (subs w)"
      then have kh: "k < length (heap (sink w))" using wf_len [OF wf] by simp
      with op f(2) have "\<not> closed (heap (sink w) ! k)" by (simp add: nth_append)
      from open_registeredD [OF opr k0 this]
      have "(cf_id (cancel (subs w ! k)), recv_ch (subs w ! k)) \<in> set (listeners (sink w))"
        by (simp add: registered_def)
      from keep [OF this] show "registered k w'"
        using f(1) k0 by (simp add: registered_def nth_append)
    next
      assume "k = length (subs w)"
      then show "registered k w'" using Listen_new_subscription(3) [OF st] by simp
    qed
  qed
qed

lemma fresh_step_Cancel:
  assumes wf: "wf_world w" and opr: "open_registered w"
    and st: "step (Op_Cancel j) w = Returns w'"
  shows "open_registered w' \<and> removed_closed w w'"
proof (cases "j < length (subs w)")
  case False
  with st have "w' = w" by simp
  with opr show ?thesis by (simp add: removed_closed_same)
next
  case True
  let ?h = "heap (sink w)"
  let ?id = "cf_id (cancel (subs w ! j))"
  from st Cancel_step [OF wf True]
  have op: "\<not> closed (?h ! j)"
    and w': "w' = w\<lparr>sink := (sink w)\<lparr>heap := ?h[j := (?h ! j)\<lparr>closed := True\<rparr>],
              listeners := AList.delete ?id (listeners (sink w))\<rparr>\<rparr>"
    by (auto split: if_splits)
  have jh: "j < length ?h" using True wf_len [OF wf] by simp
  have rj: "recv_ch (subs w ! j) = j" using wf_sub [OF wf True] by simp
  from open_registeredD [OF opr True op]
  have ej: "(?id, j) \<in> set (listeners (sink w))" using rj by (simp add: registered_def)
  show ?thesis
  proof
    show "removed_closed w w'"
      unfolding removed_closed_def
    proof (clarify)
      fix a ch assume e: "(a, ch) \<in> set (listeners (sink w))"
        and gone: "(a, ch) \<notin> set (listeners (sink w'))"
      from gone e w' have "a = ?id" by (auto simp: set_delete)
      with e ej have "ch = j" using eq_key_imp_eq_value [OF wf_keys [OF wf]] by blast
      with op w' jh show "\<not> closed (heap (sink w) ! ch) \<and> closed (heap (sink w') ! ch)"
        by simp
    qed
    show "open_registered w'"
    proof (rule open_registeredI)
      fix k assume k: "k < length (subs w')" and opk: "\<not> closed (heap (sink w') ! k)"
      from k w' have k0: "k < length (subs w)" by simp
      from opk w' jh have kj: "k \<noteq> j" by auto
      with opk w' have "\<not> closed (?h ! k)" by simp
      from open_registeredD [OF opr k0 this]
      have ek: "(cf_id (cancel (subs w ! k)), k) \<in> set (listeners (sink w))"
        using wf_sub [OF wf k0] by (simp add: registered_def)
      have "cf_id (cancel (subs w ! k)) \<noteq> ?id"
      proof
        assume "cf_id (cancel (subs w ! k)) = ?id"
        with ek ej have "k = j" using eq_key_imp_eq_value [OF wf_keys [OF wf]] by metis
        with kj show False by simp
      qed
      with ek show "registered k w'"
        using w' wf_sub [OF wf k0] by (simp add: registered_def set_delete)
    qed
  qed
qed

lemma fresh_step_Recv:
  assumes wf: "wf_world w" and opr: "open_registered w"
    and st: "step (Op_Recv j) w = Returns w'"
  shows "open_registered w' \<and> removed_closed w w'"
proof -
  have ls: "listeners (sink w') = listeners (sink w)"
    using st Recv_step [OF wf, of j]
    by (cases "j < length (subs w)"; cases "buf (heap (sink w) ! j)")
       (auto split: if_splits)
  have "open_registered w'"
  proof (rule open_registeredI)
    fix k assume k: "k < length (subs w')" and opk: "\<not> closed (heap (sink w') ! k)"
    have len: "length (subs w') = length (subs w)"
      using st Recv_step [OF wf, of j]
      by (cases "j < length (subs w)"; cases "buf (heap (sink w) ! j)")
         (auto split: if_splits)
    from k len have k0: "k < length (subs w)" by simp
    note f = step_frame_Recv [OF wf k0 st]
    from f opk have "\<not> closed (heap (sink w) ! k)" by simp
    from open_registeredD [OF opr k0 this] f ls show "registered k w'"
      by (simp add: registered_def)
  qed
  with removed_closed_same [OF ls] show ?thesis by simp
qed

lemma fresh_step:
  assumes wf: "wf_world w" and opr: "open_registered w"
    and fr: "fresh_id x w" and st: "step x w = Returns w'"
  shows "open_registered w' \<and> removed_closed w w'"
proof (cases x)
  case (Op_Write p)
  with fresh_step_Write [OF wf opr] st show ?thesis by simp
next
  case Op_Sync
  with st opr show ?thesis by (simp add: removed_closed_same)
next
  case Op_Close
  with fresh_step_Close [OF wf opr] st show ?thesis by simp
next
  case (Op_Listen i)
  with fresh_step_Listen [OF wf opr] fr st show ?thesis by simp
next
  case (Op_Cancel j)
  with fresh_step_Cancel [OF wf opr] st show ?thesis by simp
next
  case (Op_Recv j)
  with fresh_step_Recv [OF wf opr] st show ?thesis by simp
qed

lemma fresh_exec:
  assumes "wf_world w" and "open_registered w" and "fresh_run xs w"
    and "exec xs w = Returns w'"
  shows "open_registered w'"
  using assms
proof (induction xs arbitrary: w)
  case Nil
  then show ?case by simp
next
  case (Cons x xs)
  from Cons.prems(4) obtain w1 where s: "step x w = Returns w1" and e: "exec xs w1 = Returns w'"
    unfolding exec_Cons_Returns by blast
  from Cons.prems(3) s have fx: "fresh_id x w" and fr: "fresh_run xs w1" by simp_all
  from fresh_step [OF Cons.prems(1) Cons.prems(2) fx s] have o1: "open_registered w1" by simp
  from Cons.IH [OF wf_step [OF Cons.prems(1) s] o1 fr e] show ?case .
qed

lemma open_registered_NewWorld: "open_registered NewWorld"
  by (simp add: open_registered_def NewWorld_def)

text \<open>
  Claim C8 as stated fails when \<open>Listen\<close> draws an id that is a key of the map: the
  second \<open>Listen\<close> removes the first subscription's entry and leaves its channel open;
  then the first subscription's cancel function removes the second subscription's
  entry and leaves that channel open.
\<close>

theorem C8_collision_counterexample:
  "step (Op_Listen ''bcdfgh'') NewWorld
     = Returns (mk_world [(''bcdfgh'', 0)] [mk_chan [] False] [mk_sub ''bcdfgh'' 0 []])
   \<and> step (Op_Listen ''bcdfgh'')
        (mk_world [(''bcdfgh'', 0)] [mk_chan [] False] [mk_sub ''bcdfgh'' 0 []])
     = Returns (mk_world [(''bcdfgh'', 1)] [mk_chan [] False, mk_chan [] False]
                  [mk_sub ''bcdfgh'' 0 [], mk_sub ''bcdfgh'' 1 []])
   \<and> \<not> removed_closed
         (mk_world [(''bcdfgh'', 0)] [mk_chan [] False] [mk_sub ''bcdfgh'' 0 []])
         (mk_world [(''bcdfgh'', 1)] [mk_chan [] False, mk_chan [] False]
                  [mk_sub ''bcdfgh'' 0 [], mk_sub ''bcdfgh'' 1 []])
   \<and> step (Op_Cancel 0)
        (mk_world [(''bcdfgh'', 1)] [mk_chan [] False, mk_chan [] False]
                  [mk_sub ''bcdfgh'' 0 [], mk_sub ''bcdfgh'' 1 []])
     = Returns (mk_world [] [mk_chan [] True, mk_chan [] False]
                  [mk_sub ''bcdfgh'' 0 [], mk_sub ''bcdfgh'' 1 []])
   \<and> \<not> removed_closed
         (mk_world [(''bcdfgh'', 1)] [mk_chan [] False, mk_chan [] False]
                  [mk_sub ''bcdfgh'' 0 [], mk_sub ''bcdfgh'' 1 []])
         (mk_world [] [mk_chan [] True, mk_chan [] False]
                  [mk_sub ''bcdfgh'' 0 [], mk_sub ''bcdfgh'' 1 []])"
  by (simp add: run_simps removed_closed_def)

text \<open>
  Claim C8, amended. In every state \<open>w\<close> that a run reaches: every entry of the map
  holds an open channel; no \<open>Write\<close> panics, that is, none sends on a closed channel; a
  closed channel stays closed through every call; and, provided that every id drawn by
  \<open>Listen\<close> in the run and in the next call was no key of the map when drawn, every
  entry that the next call removes from the map had an open channel before the call
  and has a closed one after it. (Closing happens once: a closed channel is never
  reopened, and closing it again panics, see C9.)
\<close>

theorem C8_registry_invariant:
  assumes "exec xs NewWorld = Returns w"
  shows "registry_inv (sink w)
     \<and> (\<forall>p. Write p (sink w) \<noteq> Panics)
     \<and> (\<forall>x w' a. step x w = Returns w' \<and> a < length (heap (sink w))
            \<and> closed (heap (sink w) ! a) \<longrightarrow> closed (heap (sink w') ! a))
     \<and> (fresh_run xs NewWorld \<longrightarrow>
          (\<forall>x w'. fresh_id x w \<and> step x w = Returns w' \<longrightarrow> removed_closed w w'))"
proof (intro conjI allI impI)
  have wf: "wf_world w" using wf_run [OF assms] .
  show "registry_inv (sink w)" using wf_inv [OF wf] .
  show "\<And>p. Write p (sink w) \<noteq> Panics" using Write_no_panic [OF wf] .
  show "\<And>x w' a. step x w = Returns w' \<and> a < length (heap (sink w))
            \<and> closed (heap (sink w) ! a) \<Longrightarrow> closed (heap (sink w') ! a)"
  proof -
    fix x w' a
    assume h: "step x w = Returns w' \<and> a < length (heap (sink w))
            \<and> closed (heap (sink w) ! a)"
    then have a: "a < length (subs w)" using wf_len [OF wf] by simp
    from h step_frame(4) [OF wf a] show "closed (heap (sink w') ! a)" by blast
  qed
  show "\<And>x w'. fresh_run xs NewWorld \<Longrightarrow> fresh_id x w \<and> step x w = Returns w'
      \<Longrightarrow> removed_closed w w'"
    using fresh_step [OF wf fresh_exec [OF wf_NewWorld open_registered_NewWorld _ assms]]
    by blast
qed


theorem C8_registry_invariant_witness:
  "exec [Op_Listen ''bcdfgh'', Op_Write example_record, Op_Listen ''bcdfgk'', Op_Cancel 0]
        NewWorld
     = Returns (mk_world [(''bcdfgk'', 1)] [mk_chan [example_message] True, mk_chan [] False]
                  [mk_sub ''bcdfgh'' 0 [], mk_sub ''bcdfgk'' 1 []])
   \<and> fresh_run [Op_Listen ''bcdfgh'', Op_Write example_record, Op_Listen ''bcdfgk'',
                 Op_Cancel 0] NewWorld
   \<and> fresh_id Op_Close (mk_world [(''bcdfgk'', 1)]
                  [mk_chan [example_message] True, mk_chan [] False]
                  [mk_sub ''bcdfgh'' 0 [], mk_sub ''bcdfgk'' 1 []])
   \<and> step Op_Close (mk_world [(''bcdfgk'', 1)]
                  [mk_chan [example_message] True, mk_chan [] False]
                  [mk_sub ''bcdfgh'' 0 [], mk_sub ''bcdfgk'' 1 []])
     = Returns (mk_world [] [mk_chan [example_message] True, mk_chan [] True]
                  [mk_sub ''bcdfgh'' 0 [], mk_sub ''bcdfgk'' 1 []])
   \<and> registry_inv (sink (mk_world [(''bcdfgk'', 1)]
                  [mk_chan [example_message] True, mk_chan [] False]
                  [mk_sub ''bcdfgh'' 0 [], mk_sub ''bcdfgk'' 1 []]))
   \<and> Write example_record (sink (mk_world [(''bcdfgk'', 1)]
                  [mk_chan [example_message] True, mk_chan [] False]
                  [mk_sub ''bcdfgh'' 0 [], mk_sub ''bcdfgk'' 1 []])) \<noteq> Panics
   \<and> closed (heap (sink (mk_world [(''bcdfgk'', 1)]
                  [mk_chan [example_message] True, mk_chan [] False]
                  [mk_sub ''bcdfgh'' 0 [], mk_sub ''bcdfgk'' 1 []])) ! 0)
   \<and> closed (heap (sink (mk_world [] [mk_chan [example_message] True, mk_chan [] True]
                  [mk_sub ''bcdfgh'' 0 [], mk_sub ''bcdfgk'' 1 []])) ! 0)
   \<and> removed_closed
        (mk_world [(''bcdfgk'', 1)] [mk_chan [example_message] True, mk_chan [] False]
                  [mk_sub ''bcdfgh'' 0 [], mk_sub ''bcdfgk'' 1 []])
        (mk_world [] [mk_chan [example_message] True, mk_chan [] True]
                  [mk_sub ''bcdfgh'' 0 [], mk_sub ''bcdfgk'' 1 []])"
proof -
  let ?xs = "[Op_Listen ''bcdfgh'', Op_Write example_record, Op_Listen ''bcdfgk'', Op_Cancel 0]"
  let ?W = "mk_world [(''bcdfgk'', 1)] [mk_chan [example_message] True, mk_chan [] False]
                  [mk_sub ''bcdfgh'' 0 [], mk_sub ''bcdfgk'' 1 []]"
  let ?W' = "mk_world [] [mk_chan [example_message] True, mk_chan [] True]
                  [mk_sub ''bcdfgh'' 0 [], mk_sub ''bcdfgk'' 1 []]"
  have run: "exec ?xs NewWorld = Returns ?W" by (simp add: run_simps)
  have fr: "fresh_run ?xs NewWorld" by (simp add: run_simps)
  have fx: "fresh_id Op_Close ?W" by simp
  have st: "step Op_Close ?W = Returns ?W'" by (simp add: run_simps)
  have c0: "(0::nat) < length (heap (sink ?W))" "closed (heap (sink ?W) ! 0)"
    by (simp_all add: mk_world_def mk_chan_def)
  note t = C8_registry_invariant [OF run]
  from t have "registry_inv (sink ?W)" by blast
  moreover from t have "Write example_record (sink ?W) \<noteq> Panics" by blast
  moreover from t st c0 have "closed (heap (sink ?W') ! 0)" by blast
  moreover from t fr fx st have "removed_closed ?W ?W'" by blast
  ultimately show ?thesis using run fr fx st c0(2) by simp
qed

end
